theory Spec2Isabelle
  imports Main
begin

section \<open>Data of src/tasks/dotdox/processors.js\<close>

text \<open>
  A JavaScript value as the program handles it: \<open>undefined\<close>, \<open>null\<close>, a reference to a
  \<open>CommentContext\<close> object (its address in the heap), or the value of a property that a
  plain object \<open>{}\<close> inherits from \<open>Object.prototype\<close> (a function or an object: truthy,
  and not a \<open>CommentContext\<close>).
\<close>

datatype jsval = Undefined | Null | Ref nat | Inherited string

definition truthy :: "jsval \<Rightarrow> bool" where
  "truthy v = (case v of Undefined \<Rightarrow> False | Null \<Rightarrow> False | Ref e \<Rightarrow> True | Inherited k \<Rightarrow> True)"

text \<open>\<open>a || b\<close>\<close>

definition js_or :: "jsval \<Rightarrow> jsval \<Rightarrow> jsval" where
  "js_or a b = (if truthy a then a else b)"

text \<open>A tag as the comment parser delivers it: its \<open>type\<close> and the payload fields read here.\<close>

record tag =
  tag_type :: string
  tag_string :: string
  tag_types :: "string list"
  tag_parent :: string

text \<open>A parsed comment: the fields the constructor of \<open>CommentContext\<close> reads.\<close>

record comment =
  c_isPrivate :: bool
  c_tags :: "tag list"
  c_description :: string
  c_body :: string
  c_content :: string
  c_code :: string
  c_ctx :: "(string \<times> string) list"

text \<open>
  A property created by \<open>Object.defineProperties\<close>: its value and its \<open>writable\<close>
  attribute. An attribute the descriptor leaves out is false.
\<close>

record property =
  p_value :: jsval
  p_writable :: bool

text \<open>
  A \<open>CommentContext\<close> object. \<open>_children\<close> is the array of child references;
  \<open>_parent\<close> is the property defined at lines 10 to 12. \<open>_doc\<close> is the one
  \<open>DocContext\<close> of the state below.
\<close>

record entity =
  parent :: property
  children :: "nat list"
  isClass :: bool
  isModule :: bool
  isFunction :: bool
  isConstant :: bool
  isIgnored :: bool
  isEnum :: bool
  isPrivate :: bool
  name :: string
  types :: "string list"
  see :: "tag option"
  val :: string
  parentName :: string
  params :: "tag list"
  returns :: "tag option"
  tags :: "tag list"
  description :: string
  body :: string
  content :: string
  code :: string
  ctx :: "(string \<times> string) list"

datatype error = TypeError

text \<open>The lines the program writes to the console.\<close>

datatype logline =
    UnrecognizedKind tag
  | UnrecognizedTag tag
  | WaitingFor string
  | UnrecognizedCommentKind nat

text \<open>
  The promise that \<open>getClass\<close> returns. The only reaction this file registers is
  \<open>function (cls) { cls.addChild(this); }.bind(this)\<close>, so a reaction is the address of
  the child it is bound to.
\<close>

datatype promise = Pending "nat list" | Fulfilled jsval | Rejected error

text \<open>
  The callback \<open>getClass\<close> hands to \<open>subscribeOnce\<close>: it closes over \<open>name\<close>,
  \<open>parts\<close> and the \<open>resolve\<close> function of one promise.
\<close>

record subscriber =
  sub_name :: string
  sub_parts :: "string list"
  sub_resolve :: nat

text \<open>
  The state of a run: the objects allocated so far, the promises and the microtask queue
  of the runtime, the rejections nobody handles, the subscriptions of the event bus, the
  console, and the fields of the \<open>DocContext\<close>.
\<close>

record world =
  heap :: "entity list"
  promises :: "promise list"
  microtasks :: "(nat \<times> jsval) list"
  unhandled :: "error list"
  subscriptions :: "(string \<times> subscriber) list"
  console :: "logline list"
  verbose :: bool
  comments :: "comment list"
  classes :: "string \<rightharpoonup> nat"
  modules :: "string \<rightharpoonup> nat"
  functions' :: "string \<rightharpoonup> nat"
  constants' :: "string \<rightharpoonup> nat"
  misc :: "nat list"

section \<open>Plain objects used as maps\<close>

text \<open>
  \<open>this.classes = {}\<close> is a plain object: besides its own properties it answers for the
  properties of \<open>Object.prototype\<close>, both to \<open>in\<close> and to a read.
\<close>

definition Object_prototype_keys :: "string list" where
  "Object_prototype_keys =
     [''constructor'', ''hasOwnProperty'', ''isPrototypeOf'', ''propertyIsEnumerable'',
      ''toLocaleString'', ''toString'', ''valueOf'', ''__proto__'',
      ''__defineGetter__'', ''__defineSetter__'', ''__lookupGetter__'', ''__lookupSetter__'']"

text \<open>\<open>k in m\<close>\<close>

definition js_in :: "string \<Rightarrow> (string \<rightharpoonup> nat) \<Rightarrow> bool" where
  "js_in k m = (case m k of Some e \<Rightarrow> True | None \<Rightarrow> k \<in> set Object_prototype_keys)"

text \<open>\<open>m[k]\<close>\<close>

definition js_get :: "(string \<rightharpoonup> nat) \<Rightarrow> string \<Rightarrow> jsval" where
  "js_get m k =
     (case m k of
        Some e \<Rightarrow> Ref e
      | None \<Rightarrow> if k \<in> set Object_prototype_keys then Inherited k else Undefined)"

section \<open>Strings\<close>

text \<open>\<open>className.split(".")\<close>: never empty, so \<open>parts.shift()\<close> always finds a first segment.\<close>

fun split_dot :: "string \<Rightarrow> string list" where
  "split_dot [] = [[]]"
| "split_dot (c # cs) =
     (if c = CHR ''.'' then [] # split_dot cs
      else (case split_dot cs of w # ws \<Rightarrow> (c # w) # ws | [] \<Rightarrow> [[c]]))"

text \<open>\<open>tmp.join(".")\<close>\<close>

fun join_dot :: "string list \<Rightarrow> string" where
  "join_dot [] = []"
| "join_dot [w] = w"
| "join_dot (w # v # ws) = w @ ''.'' @ join_dot (v # ws)"

section \<open>CommentContext: child lookup\<close>

text \<open>\<open>v && (v.name === x)\<close>, for \<open>v\<close> an element of \<open>_children\<close>, \<open>null\<close> or \<open>undefined\<close>.\<close>

definition named :: "entity list \<Rightarrow> jsval \<Rightarrow> string \<Rightarrow> bool" where
  "named h v x = (case v of Ref e \<Rightarrow> name (h ! e) = x | _ \<Rightarrow> False)"

text \<open>The callback of \<open>reduce\<close> and \<open>reduceRight\<close> in lines 150 to 156 and 160 to 166.\<close>

definition pick :: "entity list \<Rightarrow> string \<Rightarrow> jsval \<Rightarrow> nat \<Rightarrow> jsval" where
  "pick h x prev current =
     (if named h prev x then prev
      else if named h (Ref current) x then Ref current
      else Undefined)"

definition getChildren :: "entity list \<Rightarrow> nat \<Rightarrow> string \<Rightarrow> nat list" where
  "getChildren h this x = filter (\<lambda>child. name (h ! child) = x) (children (h ! this))"

definition getFirstChild :: "entity list \<Rightarrow> nat \<Rightarrow> string \<Rightarrow> jsval" where
  "getFirstChild h this x = foldl (pick h x) Null (children (h ! this))"

definition getLastChild :: "entity list \<Rightarrow> nat \<Rightarrow> string \<Rightarrow> jsval" where
  "getLastChild h this x = foldl (pick h x) Null (rev (children (h ! this)))"

section \<open>CommentContext: addChild\<close>

text \<open>
  An assignment \<open>o._parent = v\<close> in non-strict code (the file has no \<open>"use strict"\<close>):
  it stores \<open>v\<close> when the property is writable and does nothing otherwise.
\<close>

definition assign_parent :: "nat \<Rightarrow> jsval \<Rightarrow> world \<Rightarrow> world" where
  "assign_parent child v s =
     (if p_writable (parent (heap s ! child))
      then s\<lparr>heap := (heap s)[child := (heap s ! child)\<lparr>parent := (parent (heap s ! child))\<lparr>p_value := v\<rparr>\<rparr>]\<rparr>
      else s)"

definition addChild :: "nat \<Rightarrow> nat \<Rightarrow> world \<Rightarrow> world" where
  "addChild this child s =
     assign_parent child (Ref this)
       (s\<lparr>heap := (heap s)[this := (heap s ! this)\<lparr>children := children (heap s ! this) @ [child]\<rparr>]\<rparr>)"

section \<open>Promises and microtasks\<close>

definition resolve :: "nat \<Rightarrow> jsval \<Rightarrow> world \<Rightarrow> world" where
  "resolve pid v s =
     (case promises s ! pid of
        Pending rs \<Rightarrow>
          s\<lparr>promises := (promises s)[pid := Fulfilled v],
            microtasks := microtasks s @ map (\<lambda>child. (child, v)) rs\<rparr>
      | _ \<Rightarrow> s)"

text \<open>An exception thrown inside the executor rejects the promise.\<close>

definition reject :: "nat \<Rightarrow> error \<Rightarrow> world \<Rightarrow> world" where
  "reject pid e s =
     (case promises s ! pid of
        Pending rs \<Rightarrow>
          s\<lparr>promises := (promises s)[pid := Rejected e],
            unhandled := unhandled s @ map (\<lambda>child. e) rs\<rparr>
      | _ \<Rightarrow> s)"

text \<open>
  \<open>p.then(function (cls) { cls.addChild(child); })\<close>, lines 102 to 104. The promise it
  returns is dropped, so a rejection that reaches it is handled by nobody.
\<close>

definition promise_then :: "nat \<Rightarrow> nat \<Rightarrow> world \<Rightarrow> world" where
  "promise_then pid child s =
     (case promises s ! pid of
        Pending rs \<Rightarrow> s\<lparr>promises := (promises s)[pid := Pending (rs @ [child])]\<rparr>
      | Fulfilled v \<Rightarrow> s\<lparr>microtasks := microtasks s @ [(child, v)]\<rparr>
      | Rejected e \<Rightarrow> s\<lparr>unhandled := unhandled s @ [e]\<rparr>)"

text \<open>
  One microtask: the reaction \<open>cls.addChild(child)\<close> on the value the promise was
  fulfilled with. On a value that is no \<open>CommentContext\<close> the call throws.
\<close>

definition run_reaction :: "nat \<times> jsval \<Rightarrow> world \<Rightarrow> world" where
  "run_reaction job s =
     (case snd job of
        Ref cls \<Rightarrow> addChild cls (fst job) s
      | _ \<Rightarrow> s\<lparr>unhandled := unhandled s @ [TypeError]\<rparr>)"

text \<open>
  The runtime empties the microtask queue once the synchronous code has returned. No
  reaction of this program queues another one.
\<close>

definition run_microtasks :: "world \<Rightarrow> world" where
  "run_microtasks s = fold run_reaction (microtasks s) (s\<lparr>microtasks := []\<rparr>)"

section \<open>The event bus\<close>

text \<open>
  Modelled from the spec: the module \<open>pubsub.js\<close> that line 1 requires is a dependency
  and not part of the sources. A topic is matched by its exact name; \<open>subscribeOnce\<close>
  registers a one-shot subscriber; \<open>publish\<close> calls the subscribers of the topic in
  subscription order, synchronously, and clears them.
\<close>

definition subscribeOnce :: "string \<Rightarrow> subscriber \<Rightarrow> world \<Rightarrow> world" where
  "subscribeOnce topic sb s = s\<lparr>subscriptions := subscriptions s @ [(topic, sb)]\<rparr>"

section \<open>DocContext.getClass\<close>

datatype walked = Walked jsval | Missing "string list" | Threw error

text \<open>
  The loop \<open>parts.every(...)\<close> of \<open>walkParts\<close>, lines 261 to 272: \<open>tmp\<close> collects the
  segments tried, \<open>ctx\<close> is the current object. Calling \<open>getFirstChild\<close> on a value that
  is no \<open>CommentContext\<close> throws.
\<close>

fun walk :: "entity list \<Rightarrow> string list \<Rightarrow> jsval \<Rightarrow> string list \<Rightarrow> walked" where
  "walk h tmp c [] = Walked c"
| "walk h tmp c (part # parts) =
     (case c of
        Ref e \<Rightarrow>
          (let c' = getFirstChild h e part
           in if truthy c' then walk h (tmp @ [part]) c' parts else Missing (tmp @ [part]))
      | _ \<Rightarrow> Threw TypeError)"

definition walkParts :: "string \<Rightarrow> string list \<Rightarrow> jsval \<Rightarrow> nat \<Rightarrow> world \<Rightarrow> error + world" where
  "walkParts nm parts c pid s =
     (case walk (heap s) [nm] c parts of
        Walked v \<Rightarrow> Inr (resolve pid v s)
      | Missing tmp \<Rightarrow> Inr (s\<lparr>console := console s @ [WaitingFor (join_dot tmp)]\<rparr>)
      | Threw e \<Rightarrow> Inl e)"

text \<open>\<open>getClass\<close> returns the promise it creates (its index) and the new state.\<close>

definition getClass :: "string \<Rightarrow> world \<Rightarrow> nat \<times> world" where
  "getClass className s =
     (let nm = hd (split_dot className);
          parts = tl (split_dot className);
          c = js_or (js_get (classes s) nm) (js_get (modules s) nm);
          pid = length (promises s);
          s1 = s\<lparr>promises := promises s @ [Pending []]\<rparr>
      in if truthy c then
           (case walkParts nm parts c pid s1 of
              Inr s2 \<Rightarrow> (pid, s2)
            | Inl e \<Rightarrow> (pid, reject pid e s1))
         else
           (pid, subscribeOnce (''resolve:'' @ className)
                   \<lparr>sub_name = nm, sub_parts = parts, sub_resolve = pid\<rparr> s1))"

text \<open>
  Modelled from the spec: \<open>pubsub.publish(topic, [ ctx ])\<close> of the same module. Each
  subscriber of the topic, in subscription order, runs its callback
  \<open>walkParts(ctx, resolve)\<close> (line 283, from the sources) on the published object; the
  subscribers called are removed. An exception of a subscriber leaves \<open>publish\<close>.
\<close>

fun deliver :: "subscriber list \<Rightarrow> nat \<Rightarrow> world \<Rightarrow> error + world" where
  "deliver [] c s = Inr s"
| "deliver (sb # sbs) c s =
     (case walkParts (sub_name sb) (sub_parts sb) (Ref c) (sub_resolve sb) s of
        Inl e \<Rightarrow> Inl e
      | Inr s' \<Rightarrow> deliver sbs c s')"

definition publish :: "string \<Rightarrow> nat \<Rightarrow> world \<Rightarrow> error + world" where
  "publish topic c s =
     deliver (map snd (filter (\<lambda>ts. fst ts = topic) (subscriptions s))) c
       (s\<lparr>subscriptions := filter (\<lambda>ts. fst ts \<noteq> topic) (subscriptions s)\<rparr>)"

section \<open>CommentContext: construction and processTags\<close>

text \<open>The object after lines 4 to 40 of the constructor.\<close>

definition init :: "comment \<Rightarrow> entity" where
  "init c =
     \<lparr>parent = \<lparr>p_value = Undefined, p_writable = False\<rparr>,
      children = [],
      isClass = False, isModule = False, isFunction = False, isConstant = False,
      isIgnored = False, isEnum = False, isPrivate = c_isPrivate c,
      name = [], types = [], see = None, val = [], parentName = [],
      params = [], returns = None,
      tags = c_tags c, description = c_description c, body = c_body c,
      content = c_content c, code = c_code c, ctx = c_ctx c\<rparr>"

text \<open>An update of the fields of the object at \<open>this\<close>.\<close>

definition update :: "nat \<Rightarrow> (entity \<Rightarrow> entity) \<Rightarrow> world \<Rightarrow> world" where
  "update this f s = s\<lparr>heap := (heap s)[this := f (heap s ! this)]\<rparr>"

definition warn :: "logline \<Rightarrow> world \<Rightarrow> world" where
  "warn l s = s\<lparr>console := console s @ [l]\<rparr>"

text \<open>The body of the \<open>forEach\<close> in \<open>processTags\<close>: the \<open>switch\<close> of lines 47 to 134.\<close>

definition processTag :: "nat \<Rightarrow> tag \<Rightarrow> world \<Rightarrow> world" where
  "processTag this tg s =
     (if tag_type tg = ''class'' then update this (\<lambda>e. e\<lparr>isClass := True\<rparr>) s
      else if tag_type tg = ''module'' then update this (\<lambda>e. e\<lparr>isModule := True\<rparr>) s
      else if tag_type tg = ''function'' then update this (\<lambda>e. e\<lparr>isFunction := True\<rparr>) s
      else if tag_type tg = ''constant'' then update this (\<lambda>e. e\<lparr>isConstant := True\<rparr>) s
      else if tag_type tg = ''enum'' then update this (\<lambda>e. e\<lparr>isEnum := True\<rparr>) s
      else if tag_type tg = ''ignore'' then update this (\<lambda>e. e\<lparr>isIgnored := True\<rparr>) s
      else if tag_type tg = ''private'' then update this (\<lambda>e. e\<lparr>isPrivate := True\<rparr>) s
      else if tag_type tg = ''name'' then update this (\<lambda>e. e\<lparr>name := tag_string tg\<rparr>) s
      else if tag_type tg = ''type'' then update this (\<lambda>e. e\<lparr>types := types e @ tag_types tg\<rparr>) s
      else if tag_type tg = ''see'' then update this (\<lambda>e. e\<lparr>see := Some tg\<rparr>) s
      else if tag_type tg = ''default'' then update this (\<lambda>e. e\<lparr>val := tag_string tg\<rparr>) s
      else if tag_type tg = ''param'' then update this (\<lambda>e. e\<lparr>params := params e @ [tg]\<rparr>) s
      else if tag_type tg = ''return'' then update this (\<lambda>e. e\<lparr>returns := Some tg\<rparr>) s
      else if tag_type tg = ''memberOf'' then
        (let s1 = update this (\<lambda>e. e\<lparr>parentName := tag_parent tg\<rparr>) s;
             r = getClass (tag_parent tg) s1
         in promise_then (fst r) this (snd r))
      else if tag_type tg = ''kind'' then
        (if tag_string tg = ''class'' then update this (\<lambda>e. e\<lparr>isClass := True\<rparr>) s
         else if tag_string tg = ''function'' then update this (\<lambda>e. e\<lparr>isFunction := True\<rparr>) s
         else if tag_string tg = ''constant'' then update this (\<lambda>e. e\<lparr>isConstant := True\<rparr>) s
         else if tag_string tg = ''enum'' then update this (\<lambda>e. e\<lparr>isEnum := True\<rparr>) s
         else warn (UnrecognizedKind tg) s)
      else warn (UnrecognizedTag tg) s)"

definition processTags :: "nat \<Rightarrow> world \<Rightarrow> world" where
  "processTags this s = fold (processTag this) (tags (heap s ! this)) s"

text \<open>\<open>new CommentContext(doc, comment)\<close>: the address of the new object and the new state.\<close>

definition CommentContext :: "comment \<Rightarrow> world \<Rightarrow> nat \<times> world" where
  "CommentContext c s =
     (let this = length (heap s)
      in (this, processTags this (s\<lparr>heap := heap s @ [init c]\<rparr>)))"

section \<open>DocContext\<close>

text \<open>\<open>new DocContext(options)\<close>, with \<open>options.verbose\<close>, in a fresh runtime.\<close>

definition DocContext :: "bool \<Rightarrow> world" where
  "DocContext v =
     \<lparr>heap = [], promises = [], microtasks = [], unhandled = [], subscriptions = [],
      console = [], verbose = v, comments = [],
      classes = Map.empty, modules = Map.empty, functions' = Map.empty,
      constants' = Map.empty, misc = []\<rparr>"

text \<open>\<open>addSource\<close>, with the comments \<open>dox.parseComments(src)\<close> returns.\<close>

definition addSource :: "comment list \<Rightarrow> world \<Rightarrow> world" where
  "addSource cs s = s\<lparr>comments := comments s @ cs\<rparr>"

text \<open>Lines 219 and 226.\<close>

definition className :: "entity \<Rightarrow> string" where
  "className e = (if parentName e \<noteq> [] then parentName e @ ''.'' else []) @ name e"

text \<open>The body of the \<open>forEach\<close> in \<open>processSource\<close>, lines 210 to 248.\<close>

definition ingest :: "comment \<Rightarrow> world \<Rightarrow> error + world" where
  "ingest c s =
     (let this = fst (CommentContext c s);
          s1 = snd (CommentContext c s);
          e = heap s1 ! this
      in if isIgnored e then Inr s1
         else if isClass e then
           (if \<not> js_in (name e) (classes s1)
            then publish (''resolve:'' @ className e) this
                   (s1\<lparr>classes := (classes s1)(name e \<mapsto> this)\<rparr>)
            else Inr s1)
         else if isModule e then
           (if \<not> js_in (name e) (modules s1)
            then publish (''resolve:'' @ className e) this
                   (s1\<lparr>modules := (modules s1)(name e \<mapsto> this)\<rparr>)
            else Inr s1)
         else if isFunction e then
           (if \<not> js_in (name e) (functions' s1)
            then Inr (s1\<lparr>functions' := (functions' s1)(name e \<mapsto> this)\<rparr>)
            else Inr s1)
         else if isConstant e \<or> isEnum e then
           (if \<not> js_in (name e) (constants' s1)
            then Inr (s1\<lparr>constants' := (constants' s1)(name e \<mapsto> this)\<rparr>)
            else Inr s1)
         else
           Inr ((if verbose s1 then warn (UnrecognizedCommentKind this) s1 else s1)
                  \<lparr>misc := misc s1 @ [this]\<rparr>))"

text \<open>\<open>this.comments.forEach(...)\<close>: an exception ends the loop.\<close>

fun forEach :: "comment list \<Rightarrow> world \<Rightarrow> error + world" where
  "forEach [] s = Inr s"
| "forEach (c # cs) s = (case ingest c s of Inl e \<Rightarrow> Inl e | Inr s' \<Rightarrow> forEach cs s')"

definition processSource :: "world \<Rightarrow> error + world" where
  "processSource s = forEach (comments s) s"

section \<open>Sample inputs\<close>

text \<open>A tag with a type, a \<open>string\<close> and a \<open>parent\<close>; a comment with tags and a description.\<close>

definition a_tag :: "string \<Rightarrow> string \<Rightarrow> string \<Rightarrow> tag" where
  "a_tag ty str par = \<lparr>tag_type = ty, tag_string = str, tag_types = [], tag_parent = par\<rparr>"

definition a_comment :: "tag list \<Rightarrow> string \<Rightarrow> comment" where
  "a_comment ts d =
     \<lparr>c_isPrivate = False, c_tags = ts, c_description = d, c_body = [], c_content = [],
      c_code = [], c_ctx = []\<rparr>"

text \<open>An object with a name and children, as a heap cell.\<close>

definition an_entity :: "string \<Rightarrow> nat list \<Rightarrow> entity" where
  "an_entity n cs = (init (a_comment [] []))\<lparr>name := n, children := cs\<rparr>"

section \<open>Notions used in the statements\<close>

text \<open>
  What one tag assigns to the fields of the object: the assignments of the \<open>switch\<close> in
  \<open>processTags\<close>, without the call of \<open>getClass\<close>. Lemma \<open>heap_processTag\<close> shows
  that \<open>processTag\<close> stores exactly this.
\<close>

definition tag_fields :: "tag \<Rightarrow> entity \<Rightarrow> entity" where
  "tag_fields tg e =
     (if tag_type tg = ''class'' then e\<lparr>isClass := True\<rparr>
      else if tag_type tg = ''module'' then e\<lparr>isModule := True\<rparr>
      else if tag_type tg = ''function'' then e\<lparr>isFunction := True\<rparr>
      else if tag_type tg = ''constant'' then e\<lparr>isConstant := True\<rparr>
      else if tag_type tg = ''enum'' then e\<lparr>isEnum := True\<rparr>
      else if tag_type tg = ''ignore'' then e\<lparr>isIgnored := True\<rparr>
      else if tag_type tg = ''private'' then e\<lparr>isPrivate := True\<rparr>
      else if tag_type tg = ''name'' then e\<lparr>name := tag_string tg\<rparr>
      else if tag_type tg = ''type'' then e\<lparr>types := types e @ tag_types tg\<rparr>
      else if tag_type tg = ''see'' then e\<lparr>see := Some tg\<rparr>
      else if tag_type tg = ''default'' then e\<lparr>val := tag_string tg\<rparr>
      else if tag_type tg = ''param'' then e\<lparr>params := params e @ [tg]\<rparr>
      else if tag_type tg = ''return'' then e\<lparr>returns := Some tg\<rparr>
      else if tag_type tg = ''memberOf'' then e\<lparr>parentName := tag_parent tg\<rparr>
      else if tag_type tg = ''kind'' then
        (if tag_string tg = ''class'' then e\<lparr>isClass := True\<rparr>
         else if tag_string tg = ''function'' then e\<lparr>isFunction := True\<rparr>
         else if tag_string tg = ''constant'' then e\<lparr>isConstant := True\<rparr>
         else if tag_string tg = ''enum'' then e\<lparr>isEnum := True\<rparr>
         else e)
      else e)"

text \<open>The fields of the object a comment is turned into (lemma \<open>heap_CommentContext\<close>).\<close>

definition entity_of :: "comment \<Rightarrow> entity" where
  "entity_of c = fold tag_fields (c_tags c) (init c)"



text \<open>
  The branch of \<open>processSource\<close> an object takes (lines 212 to 248), in the order of the
  tests.
\<close>

datatype category = Dropped | Class | Module | Function | Constant | Misc

definition classify :: "entity \<Rightarrow> category" where
  "classify e =
     (if isIgnored e then Dropped
      else if isClass e then Class
      else if isModule e then Module
      else if isFunction e then Function
      else if isConstant e \<or> isEnum e then Constant
      else Misc)"

text \<open>The map \<open>processSource\<close> files an object of a category in.\<close>

definition category_map :: "category \<Rightarrow> world \<Rightarrow> (string \<rightharpoonup> nat)" where
  "category_map k s =
     (case k of Class \<Rightarrow> classes s | Module \<Rightarrow> modules s | Function \<Rightarrow> functions' s
      | Constant \<Rightarrow> constants' s | _ \<Rightarrow> Map.empty)"

text \<open>
  What may happen to a state afterwards, step by step. Inside the ingestion of a comment:
  a tag is processed (the remaining rounds of the loop in \<open>processTags\<close>), the object is
  filed in a map or in misc (lines 218, 225, 232, 237 and 247), a topic is published
  (lines 220 and 227), a warning is written (line 242). Between comments: a whole comment
  is ingested, an object is constructed, a reference is looked up, and the microtask queue
  is run. Lemma \<open>rest_of_run_is_later\<close> shows that the states of a run of
  \<open>processSource\<close> after a tag, and the state after its microtasks, are of this kind.
\<close>

inductive later :: "world \<Rightarrow> world \<Rightarrow> bool" where
  now: "later s s"
| tagged: "later s s' \<Longrightarrow> later s (processTag this t s')"
| filed_class: "later s s' \<Longrightarrow> later s (s'\<lparr>classes := (classes s')(n \<mapsto> e)\<rparr>)"
| filed_module: "later s s' \<Longrightarrow> later s (s'\<lparr>modules := (modules s')(n \<mapsto> e)\<rparr>)"
| filed_function: "later s s' \<Longrightarrow> later s (s'\<lparr>functions' := (functions' s')(n \<mapsto> e)\<rparr>)"
| filed_constant: "later s s' \<Longrightarrow> later s (s'\<lparr>constants' := (constants' s')(n \<mapsto> e)\<rparr>)"
| filed_misc: "later s s' \<Longrightarrow> later s (s'\<lparr>misc := misc s' @ [e]\<rparr>)"
| warned: "later s s' \<Longrightarrow> later s (warn l s')"
| published: "later s s' \<Longrightarrow> publish topic e s' = Inr s'' \<Longrightarrow> later s s''"
| ingested: "later s s' \<Longrightarrow> ingest c s' = Inr s'' \<Longrightarrow> later s s''"
| constructed: "later s s' \<Longrightarrow> later s (snd (CommentContext c s'))"
| looked_up: "later s s' \<Longrightarrow> later s (snd (getClass n s'))"
| drained: "later s s' \<Longrightarrow> later s (run_microtasks s')"

text \<open>The fields of the index: no operation but the stores of \<open>ingest\<close> changes them.\<close>

definition same_index :: "world \<Rightarrow> world \<Rightarrow> bool" where
  "same_index s s' \<longleftrightarrow>
     classes s' = classes s \<and> modules s' = modules s \<and> functions' s' = functions' s \<and>
     constants' s' = constants' s \<and> misc s' = misc s \<and> verbose s' = verbose s \<and>
     comments s' = comments s"

text \<open>The objects the index holds: the values of its four maps and the elements of \<open>misc\<close>.\<close>

definition stored :: "world \<Rightarrow> nat set" where
  "stored s =
     ran (classes s) \<union> ran (modules s) \<union> ran (functions' s) \<union> ran (constants' s) \<union>
     set (misc s)"

text \<open>
  A state \<open>s'\<close> that came from \<open>s\<close> without a publication and without a run of the
  microtasks: the promises of \<open>s\<close> are as they were, and promises, subscriptions (for
  the new promises) and microtasks were only added.
\<close>

definition grows :: "world \<Rightarrow> world \<Rightarrow> bool" where
  "grows s s' \<longleftrightarrow>
     length (promises s) \<le> length (promises s') \<and>
     (\<forall>pid<length (promises s). promises s' ! pid = promises s ! pid) \<and>
     (\<exists>new. subscriptions s' = subscriptions s @ new \<and>
            (\<forall>ts\<in>set new. length (promises s) \<le> sub_resolve (snd ts) \<and>
                            sub_resolve (snd ts) < length (promises s'))) \<and>
     (\<exists>new. microtasks s' = microtasks s @ new)"

text \<open>
  A promise that exists and whose \<open>resolve\<close> function no subscriber holds. Its executor
  has returned, so nothing can settle it.
\<close>

definition abandoned :: "nat \<Rightarrow> world \<Rightarrow> bool" where
  "abandoned pid s \<longleftrightarrow>
     pid < length (promises s) \<and> (\<forall>ts\<in>set (subscriptions s). sub_resolve (snd ts) \<noteq> pid)"


section \<open>Child lookup\<close>

lemma truthy_simps [simp]:
  "truthy Undefined = False" "truthy Null = False"
  "truthy (Ref e) = True" "truthy (Inherited k) = True"
  by (simp_all add: truthy_def)

lemma named_simps [simp]:
  "named h Undefined x = False" "named h Null x = False"
  "named h (Ref e) x = (name (h ! e) = x)" "named h (Inherited k) x = False"
  by (simp_all add: named_def)

lemma foldl_pick_hit: "named h acc x \<Longrightarrow> foldl (pick h x) acc cs = acc"
  by (induction cs) (simp_all add: pick_def)

lemma foldl_pick_none:
  "\<forall>child\<in>set cs. name (h ! child) \<noteq> x \<Longrightarrow> \<not> named h acc x \<Longrightarrow>
   foldl (pick h x) acc cs = (if cs = [] then acc else Undefined)"
proof (induction cs arbitrary: acc)
  case Nil
  then show ?case by simp
next
  case (Cons c cs)
  have "pick h x acc c = Undefined" using Cons.prems by (simp add: pick_def)
  moreover have "foldl (pick h x) Undefined cs = (if cs = [] then Undefined else Undefined)"
    using Cons.prems by (intro Cons.IH) simp_all
  ultimately show ?case by simp
qed

lemma foldl_pick_first:
  "\<forall>child\<in>set pre. name (h ! child) \<noteq> x \<Longrightarrow> name (h ! c) = x \<Longrightarrow> \<not> named h acc x \<Longrightarrow>
   foldl (pick h x) acc (pre @ c # post) = Ref c"
proof (induction pre arbitrary: acc)
  case Nil
  have "pick h x acc c = Ref c" using Nil by (simp add: pick_def)
  then show ?case using Nil by (simp add: foldl_pick_hit)
next
  case (Cons d pre)
  have "pick h x acc d = Undefined" using Cons.prems by (simp add: pick_def)
  then show ?case using Cons.prems Cons.IH [of Undefined] by simp
qed

text \<open>
  C9: for every object and every name \<open>x\<close>, when no child is named \<open>x\<close> both
  \<open>getFirstChild(x)\<close> and \<open>getLastChild(x)\<close> return a none value, never an error:
  \<open>null\<close> when the object has no children at all (the initial value of the reduction),
  \<open>undefined\<close> otherwise.
\<close>

theorem getFirstChild_none:
  assumes "\<forall>child\<in>set (children (h ! this)). name (h ! child) \<noteq> x"
  shows "getFirstChild h this x = (if children (h ! this) = [] then Null else Undefined) \<and>
         getLastChild h this x = (if children (h ! this) = [] then Null else Undefined) \<and>
         \<not> truthy (getFirstChild h this x) \<and> \<not> truthy (getLastChild h this x)"
proof -
  have a: "getFirstChild h this x = (if children (h ! this) = [] then Null else Undefined)"
    unfolding getFirstChild_def using assms by (subst foldl_pick_none) simp_all
  have "\<forall>child\<in>set (rev (children (h ! this))). name (h ! child) \<noteq> x" using assms by simp
  then have b: "getLastChild h this x = (if children (h ! this) = [] then Null else Undefined)"
    unfolding getLastChild_def by (subst foldl_pick_none) simp_all
  show ?thesis using a b by simp
qed

theorem getFirstChild_none_witness:
  "getFirstChild [an_entity ''A'' [1, 2], an_entity ''f'' [], an_entity ''g'' []] 0 ''x'' = Undefined \<and>
   getLastChild [an_entity ''A'' [1, 2], an_entity ''f'' [], an_entity ''g'' []] 0 ''x'' = Undefined \<and>
   getFirstChild [an_entity ''A'' [1, 2], an_entity ''f'' [], an_entity ''g'' []] 1 ''x'' = Null \<and>
   getLastChild [an_entity ''A'' [1, 2], an_entity ''f'' [], an_entity ''g'' []] 1 ''x'' = Null"
  using getFirstChild_none [of "[an_entity ''A'' [1, 2], an_entity ''f'' [], an_entity ''g'' []]" 0 "''x''"]
    getFirstChild_none [of "[an_entity ''A'' [1, 2], an_entity ''f'' [], an_entity ''g'' []]" 1 "''x''"]
  by (simp add: an_entity_def)

section \<open>Frame properties of the primitives\<close>

lemma update_fields [simp]:
  "heap (update this f s) = (heap s)[this := f (heap s ! this)]"
  "promises (update this f s) = promises s"
  "microtasks (update this f s) = microtasks s"
  "unhandled (update this f s) = unhandled s"
  "subscriptions (update this f s) = subscriptions s"
  "console (update this f s) = console s"
  "verbose (update this f s) = verbose s"
  "comments (update this f s) = comments s"
  "classes (update this f s) = classes s"
  "modules (update this f s) = modules s"
  "functions' (update this f s) = functions' s"
  "constants' (update this f s) = constants' s"
  "misc (update this f s) = misc s"
  by (simp_all add: update_def)

lemma warn_fields [simp]:
  "heap (warn l s) = heap s"
  "promises (warn l s) = promises s"
  "microtasks (warn l s) = microtasks s"
  "unhandled (warn l s) = unhandled s"
  "subscriptions (warn l s) = subscriptions s"
  "console (warn l s) = console s @ [l]"
  "verbose (warn l s) = verbose s"
  "comments (warn l s) = comments s"
  "classes (warn l s) = classes s"
  "modules (warn l s) = modules s"
  "functions' (warn l s) = functions' s"
  "constants' (warn l s) = constants' s"
  "misc (warn l s) = misc s"
  by (simp_all add: warn_def)

lemma resolve_fields [simp]:
  "heap (resolve pid v s) = heap s"
  "length (promises (resolve pid v s)) = length (promises s)"
  "unhandled (resolve pid v s) = unhandled s"
  "subscriptions (resolve pid v s) = subscriptions s"
  "console (resolve pid v s) = console s"
  "verbose (resolve pid v s) = verbose s"
  "comments (resolve pid v s) = comments s"
  "classes (resolve pid v s) = classes s"
  "modules (resolve pid v s) = modules s"
  "functions' (resolve pid v s) = functions' s"
  "constants' (resolve pid v s) = constants' s"
  "misc (resolve pid v s) = misc s"
  by (simp_all add: resolve_def split: promise.split)

lemma reject_fields [simp]:
  "heap (reject pid e s) = heap s"
  "length (promises (reject pid e s)) = length (promises s)"
  "microtasks (reject pid e s) = microtasks s"
  "subscriptions (reject pid e s) = subscriptions s"
  "console (reject pid e s) = console s"
  "verbose (reject pid e s) = verbose s"
  "comments (reject pid e s) = comments s"
  "classes (reject pid e s) = classes s"
  "modules (reject pid e s) = modules s"
  "functions' (reject pid e s) = functions' s"
  "constants' (reject pid e s) = constants' s"
  "misc (reject pid e s) = misc s"
  by (simp_all add: reject_def split: promise.split)

lemma promise_then_fields [simp]:
  "heap (promise_then pid child s) = heap s"
  "length (promises (promise_then pid child s)) = length (promises s)"
  "subscriptions (promise_then pid child s) = subscriptions s"
  "console (promise_then pid child s) = console s"
  "verbose (promise_then pid child s) = verbose s"
  "comments (promise_then pid child s) = comments s"
  "classes (promise_then pid child s) = classes s"
  "modules (promise_then pid child s) = modules s"
  "functions' (promise_then pid child s) = functions' s"
  "constants' (promise_then pid child s) = constants' s"
  "misc (promise_then pid child s) = misc s"
  by (simp_all add: promise_then_def split: promise.split)

lemma subscribeOnce_fields [simp]:
  "heap (subscribeOnce t sb s) = heap s"
  "promises (subscribeOnce t sb s) = promises s"
  "microtasks (subscribeOnce t sb s) = microtasks s"
  "unhandled (subscribeOnce t sb s) = unhandled s"
  "subscriptions (subscribeOnce t sb s) = subscriptions s @ [(t, sb)]"
  "console (subscribeOnce t sb s) = console s"
  "verbose (subscribeOnce t sb s) = verbose s"
  "comments (subscribeOnce t sb s) = comments s"
  "classes (subscribeOnce t sb s) = classes s"
  "modules (subscribeOnce t sb s) = modules s"
  "functions' (subscribeOnce t sb s) = functions' s"
  "constants' (subscribeOnce t sb s) = constants' s"
  "misc (subscribeOnce t sb s) = misc s"
  by (simp_all add: subscribeOnce_def)

lemma same_index_refl [simp]: "same_index s s"
  by (simp add: same_index_def)

lemma same_index_trans: "same_index s s' \<Longrightarrow> same_index s' s'' \<Longrightarrow> same_index s s''"
  by (simp add: same_index_def)

lemma same_index_prims [simp]:
  "same_index s (update this f s)" "same_index s (warn l s)" "same_index s (resolve pid v s)"
  "same_index s (reject pid e s)" "same_index s (promise_then pid child s)"
  "same_index s (subscribeOnce t sb s)"
  by (simp_all add: same_index_def)

lemma walkParts_frame:
  assumes "walkParts nm parts c pid s = Inr s'"
  shows "heap s' = heap s" "subscriptions s' = subscriptions s" "unhandled s' = unhandled s"
    "length (promises s') = length (promises s)" "same_index s s'"
  using assms by (auto simp: walkParts_def same_index_def split: walked.splits)

lemma split_dot_nonempty [simp]: "split_dot w \<noteq> []"
  by (induction w) (auto split: list.splits)

lemma getClass_fst [simp]: "fst (getClass n s) = length (promises s)"
  by (simp add: getClass_def Let_def split: sum.splits)

lemma getClass_frame [simp]:
  "heap (snd (getClass n s)) = heap s"
  "length (promises (snd (getClass n s))) = Suc (length (promises s))"
  "same_index s (snd (getClass n s))"
  by (auto simp: getClass_def Let_def same_index_def split: sum.splits dest: walkParts_frame)

section \<open>Construction and ingestion\<close>

lemma heap_processTag:
  "heap (processTag this t s) = (heap s)[this := tag_fields t (heap s ! this)]"
  by (simp add: processTag_def tag_fields_def Let_def)

lemma same_index_memberOf:
  "same_index s (promise_then (fst (getClass n (update this f s))) this (snd (getClass n (update this f s))))"
proof -
  let ?u = "update this f s"
  have "same_index s ?u" by simp
  moreover have "same_index ?u (snd (getClass n ?u))" by simp
  moreover have "same_index (snd (getClass n ?u)) (promise_then (fst (getClass n ?u)) this (snd (getClass n ?u)))"
    by simp
  ultimately show ?thesis by (blast intro: same_index_trans)
qed

lemma same_index_processTag [simp]: "same_index s (processTag this t s)"
  using same_index_memberOf by (simp add: processTag_def Let_def del: getClass_fst)

lemma heap_fold_processTag:
  "heap (fold (processTag this) ts s) = (heap s)[this := fold tag_fields ts (heap s ! this)]"
proof (induction ts arbitrary: s)
  case Nil
  then show ?case by simp
next
  case (Cons t ts)
  show ?case
  proof (cases "this < length (heap s)")
    case True
    then show ?thesis by (simp add: Cons.IH heap_processTag)
  next
    case False
    then show ?thesis by (simp add: Cons.IH heap_processTag list_update_beyond)
  qed
qed

lemma same_index_fold_processTag [simp]: "same_index s (fold (processTag this) ts s)"
proof (induction ts arbitrary: s)
  case Nil
  then show ?case by simp
next
  case (Cons t ts)
  show ?case
    using same_index_trans [OF same_index_processTag [of s this t] Cons.IH [of "processTag this t s"]]
    by simp
qed

lemma tags_init [simp]: "tags (init c) = c_tags c"
  by (simp add: init_def)

lemma CommentContext_fst [simp]: "fst (CommentContext c s) = length (heap s)"
  by (simp add: CommentContext_def Let_def)

lemma heap_CommentContext [simp]: "heap (snd (CommentContext c s)) = heap s @ [entity_of c]"
  by (simp add: CommentContext_def Let_def processTags_def heap_fold_processTag entity_of_def)

lemma same_index_CommentContext [simp]: "same_index s (snd (CommentContext c s))"
proof -
  have "same_index (s\<lparr>heap := heap s @ [init c]\<rparr>) (snd (CommentContext c s))"
    by (simp add: CommentContext_def Let_def processTags_def)
  moreover have "same_index s (s\<lparr>heap := heap s @ [init c]\<rparr>)"
    by (simp add: same_index_def)
  ultimately show ?thesis by (rule same_index_trans [rotated])
qed

lemma foldl_pick_not_inherited:
  "acc \<noteq> Inherited k \<Longrightarrow> foldl (pick h x) acc cs \<noteq> Inherited k"
  by (induction cs arbitrary: acc) (simp_all add: pick_def)

lemma getFirstChild_truthy: "truthy (getFirstChild h e x) \<Longrightarrow> \<exists>e'. getFirstChild h e x = Ref e'"
  using foldl_pick_not_inherited [of Null _ h x "children (h ! e)"]
  by (cases "getFirstChild h e x") (auto simp: getFirstChild_def)

lemma walk_Ref: "walk h tmp (Ref e) parts \<noteq> Threw err"
proof (induction parts arbitrary: tmp e)
  case Nil
  then show ?case by simp
next
  case (Cons part parts)
  show ?case
  proof (cases "truthy (getFirstChild h e part)")
    case True
    then obtain e' where "getFirstChild h e part = Ref e'"
      using getFirstChild_truthy by blast
    then show ?thesis using Cons.IH by (simp add: Let_def)
  next
    case False
    then show ?thesis by (simp add: Let_def)
  qed
qed

lemma walkParts_Ref: "\<exists>s'. walkParts nm parts (Ref e) pid s = Inr s'"
  using walk_Ref [of "heap s" "[nm]" e parts]
  by (cases "walk (heap s) [nm] (Ref e) parts") (auto simp: walkParts_def)

lemma deliver_total: "\<exists>s'. deliver sbs c s = Inr s'"
proof (induction sbs arbitrary: s)
  case Nil
  then show ?case by simp
next
  case (Cons sb sbs)
  obtain s1 where "walkParts (sub_name sb) (sub_parts sb) (Ref c) (sub_resolve sb) s = Inr s1"
    using walkParts_Ref by blast
  then show ?case using Cons.IH [of s1] by simp
qed

lemma deliver_frame:
  assumes "deliver sbs c s = Inr s'"
  shows "heap s' = heap s \<and> subscriptions s' = subscriptions s \<and> unhandled s' = unhandled s \<and>
         length (promises s') = length (promises s) \<and> same_index s s'"
  using assms
proof (induction sbs arbitrary: s)
  case Nil
  then show ?case by simp
next
  case (Cons sb sbs)
  obtain s1 where s1: "walkParts (sub_name sb) (sub_parts sb) (Ref c) (sub_resolve sb) s = Inr s1"
    using walkParts_Ref by blast
  then have "deliver sbs c s1 = Inr s'" using Cons.prems by simp
  from Cons.IH [OF this] walkParts_frame [OF s1] show ?case
    by (auto intro: same_index_trans)
qed

lemma publish_total: "\<exists>s'. publish topic c s = Inr s'"
  by (simp add: publish_def deliver_total)

lemma publish_frame:
  assumes "publish topic c s = Inr s'"
  shows "heap s' = heap s" "unhandled s' = unhandled s" "same_index s s'"
    "length (promises s') = length (promises s)"
    "subscriptions s' = filter (\<lambda>ts. fst ts \<noteq> topic) (subscriptions s)"
  using deliver_frame [OF assms [unfolded publish_def]] by (simp_all add: same_index_def)

lemma ingest_total: "\<exists>s'. ingest c s = Inr s'"
  by (simp add: ingest_def Let_def publish_total)

lemma forEach_total: "\<exists>s'. forEach cs s = Inr s'"
proof (induction cs arbitrary: s)
  case Nil
  then show ?case by simp
next
  case (Cons c cs)
  obtain s1 where "ingest c s = Inr s1" using ingest_total by blast
  then show ?case using Cons.IH [of s1] by simp
qed

lemma processSource_total: "\<exists>s'. processSource s = Inr s'"
  by (simp add: processSource_def forEach_total)

lemma ingest_heap:
  assumes "ingest c s = Inr s'"
  shows "heap s' = heap s @ [entity_of c]"
  using assms
  by (auto simp: ingest_def Let_def split: if_splits dest!: publish_frame(1))

section \<open>The tag interpreter\<close>

lemma name_tag_fields:
  "name (tag_fields t e) = (if tag_type t = ''name'' then tag_string t else name e)"
  by (simp add: tag_fields_def)

lemma types_tag_fields:
  "types (tag_fields t e) = (if tag_type t = ''type'' then types e @ tag_types t else types e)"
  by (simp add: tag_fields_def)

lemma name_fold_tag_fields:
  "name (fold tag_fields ts e) =
     (if filter (\<lambda>t. tag_type t = ''name'') ts = [] then name e
      else tag_string (last (filter (\<lambda>t. tag_type t = ''name'') ts)))"
  by (induction ts rule: rev_induct) (simp_all add: name_tag_fields)

lemma types_fold_tag_fields:
  "types (fold tag_fields ts e) =
     types e @ concat (map tag_types (filter (\<lambda>t. tag_type t = ''type'') ts))"
  by (induction ts rule: rev_induct) (simp_all add: types_tag_fields)

text \<open>
  C7: for every tag list, the object built from it has as its name the \<open>string\<close> of the
  last "name" tag (the empty initial name when there is none), and as its type list the
  \<open>types\<close> of all "type" tags concatenated in tag order.
\<close>

theorem name_last_types_concat:
  "name (heap (snd (CommentContext c s)) ! fst (CommentContext c s)) =
     (if filter (\<lambda>t. tag_type t = ''name'') (c_tags c) = [] then []
      else tag_string (last (filter (\<lambda>t. tag_type t = ''name'') (c_tags c)))) \<and>
   types (heap (snd (CommentContext c s)) ! fst (CommentContext c s)) =
     concat (map tag_types (filter (\<lambda>t. tag_type t = ''type'') (c_tags c)))"
  by (simp add: entity_of_def name_fold_tag_fields types_fold_tag_fields init_def)

theorem name_last_types_concat_witness:
  "name (heap (snd (CommentContext
      (a_comment [a_tag ''name'' ''first'' [], (a_tag ''type'' [] [])\<lparr>tag_types := [''A'', ''B'']\<rparr>,
                  a_tag ''name'' ''second'' [], (a_tag ''type'' [] [])\<lparr>tag_types := [''C'']\<rparr>] [])
      (DocContext False))) ! 0) = ''second'' \<and>
   types (heap (snd (CommentContext
      (a_comment [a_tag ''name'' ''first'' [], (a_tag ''type'' [] [])\<lparr>tag_types := [''A'', ''B'']\<rparr>,
                  a_tag ''name'' ''second'' [], (a_tag ''type'' [] [])\<lparr>tag_types := [''C'']\<rparr>] [])
      (DocContext False))) ! 0) = [''A'', ''B'', ''C'']"
  using name_last_types_concat [of
      "a_comment [a_tag ''name'' ''first'' [], (a_tag ''type'' [] [])\<lparr>tag_types := [''A'', ''B'']\<rparr>,
                  a_tag ''name'' ''second'' [], (a_tag ''type'' [] [])\<lparr>tag_types := [''C'']\<rparr>] []"
      "DocContext False"]
  by (simp add: a_comment_def a_tag_def DocContext_def)




section \<open>Dotted references\<close>

lemma split_dot_nodot: "CHR ''.'' \<notin> set w \<Longrightarrow> split_dot w = [w]"
  by (induction w) auto

lemma split_dot_append:
  "CHR ''.'' \<notin> set w \<Longrightarrow> split_dot (w @ CHR ''.'' # r) = w # split_dot r"
  by (induction w) auto

lemma getFirstChild_first:
  assumes "children (h ! a) = pre @ c # post" "name (h ! c) = x"
    "\<forall>d\<in>set pre. name (h ! d) \<noteq> x"
  shows "getFirstChild h a x = Ref c"
  unfolding getFirstChild_def assms(1) by (rule foldl_pick_first) (use assms in simp_all)

lemma getLastChild_last:
  assumes "children (h ! a) = pre @ c # post" "name (h ! c) = x"
    "\<forall>d\<in>set post. name (h ! d) \<noteq> x"
  shows "getLastChild h a x = Ref c"
proof -
  have r: "rev (children (h ! a)) = rev post @ c # rev pre" using assms by simp
  show ?thesis unfolding getLastChild_def r by (rule foldl_pick_first) (use assms in simp_all)
qed

text \<open>
  C5: a reference \<open>A.B\<close> (two segments without dots) whose first segment the index knows
  as a class or module \<open>a\<close>, looked up when the children of \<open>a\<close> are
  \<open>pre @ c # post\<close> with \<open>c\<close> named \<open>B\<close> and no child named \<open>B\<close> in \<open>pre\<close>,
  fulfils the promise of \<open>getClass\<close> with \<open>c\<close>, whatever \<open>post\<close> holds; the walk a
  subscriber runs when \<open>a\<close> is published yields \<open>c\<close> in the same way.
\<close>

theorem dotted_reference_first_child:
  assumes "CHR ''.'' \<notin> set A" "CHR ''.'' \<notin> set B"
    and "js_or (js_get (classes s) A) (js_get (modules s) A) = Ref a"
    and "children (heap s ! a) = pre @ c # post"
    and "name (heap s ! c) = B"
    and "\<forall>d\<in>set pre. name (heap s ! d) \<noteq> B"
  shows "promises (snd (getClass (A @ ''.'' @ B) s)) ! fst (getClass (A @ ''.'' @ B) s) =
           Fulfilled (Ref c) \<and>
         walk (heap s) [A] (Ref a) [B] = Walked (Ref c) \<and>
         walkParts A [B] (Ref a) pid s = Inr (resolve pid (Ref c) s)"
proof -
  have sp: "split_dot (A @ ''.'' @ B) = [A, B]"
    using assms(1,2) by (simp add: split_dot_append split_dot_nodot)
  have g: "getFirstChild (heap s) a B = Ref c"
    using assms(4-6) by (rule getFirstChild_first)
  then have w: "walk (heap s) [A] (Ref a) [B] = Walked (Ref c)" by simp
  then have wp: "walkParts A [B] (Ref a) p s' = Inr (resolve p (Ref c) s')" if "heap s' = heap s" for p s'
    using that by (simp add: walkParts_def)
  show ?thesis using w wp [of s pid] wp [of "s\<lparr>promises := promises s @ [Pending []]\<rparr>" "length (promises s)"] assms(3) sp
    by (simp add: getClass_def Let_def resolve_def)
qed

theorem dotted_reference_first_child_witness:
  "promises (snd (getClass ''A.B''
      ((DocContext False)\<lparr>heap := [an_entity ''A'' [1, 2, 3], an_entity ''x'' [], an_entity ''B'' [], an_entity ''B'' []],
                           classes := [''A'' \<mapsto> 0]\<rparr>))) ! 0 = Fulfilled (Ref 2)"
  using dotted_reference_first_child [of "''A''" "''B''"
      "(DocContext False)\<lparr>heap := [an_entity ''A'' [1, 2, 3], an_entity ''x'' [], an_entity ''B'' [], an_entity ''B'' []],
                           classes := [''A'' \<mapsto> 0]\<rparr>" 0 "[1]" 2 "[3]" 0]
  by (simp add: js_get_def js_or_def an_entity_def DocContext_def)

section \<open>Microtasks and the branches of ingest\<close>

lemma assign_parent_fields [simp]:
  "length (heap (assign_parent child v s)) = length (heap s)"
  "promises (assign_parent child v s) = promises s"
  "microtasks (assign_parent child v s) = microtasks s"
  "unhandled (assign_parent child v s) = unhandled s"
  "subscriptions (assign_parent child v s) = subscriptions s"
  "console (assign_parent child v s) = console s"
  "verbose (assign_parent child v s) = verbose s"
  "comments (assign_parent child v s) = comments s"
  "classes (assign_parent child v s) = classes s"
  "modules (assign_parent child v s) = modules s"
  "functions' (assign_parent child v s) = functions' s"
  "constants' (assign_parent child v s) = constants' s"
  "misc (assign_parent child v s) = misc s"
  by (simp_all add: assign_parent_def)

lemma addChild_fields [simp]:
  "length (heap (addChild this child s)) = length (heap s)"
  "promises (addChild this child s) = promises s"
  "microtasks (addChild this child s) = microtasks s"
  "unhandled (addChild this child s) = unhandled s"
  "subscriptions (addChild this child s) = subscriptions s"
  "console (addChild this child s) = console s"
  "same_index s (addChild this child s)"
  by (simp_all add: addChild_def same_index_def)

lemma run_reaction_fields [simp]:
  "length (heap (run_reaction job s)) = length (heap s)"
  "promises (run_reaction job s) = promises s"
  "microtasks (run_reaction job s) = microtasks s"
  "subscriptions (run_reaction job s) = subscriptions s"
  "console (run_reaction job s) = console s"
  by (simp_all add: run_reaction_def split: jsval.split)

lemma same_index_run_reaction [simp]: "same_index s (run_reaction job s)"
proof (cases "snd job")
  case (Ref cls)
  then show ?thesis by (simp add: run_reaction_def)
qed (simp_all add: run_reaction_def same_index_def)

lemma fold_run_reaction_fields:
  "length (heap (fold run_reaction jobs s)) = length (heap s) \<and>
   promises (fold run_reaction jobs s) = promises s \<and>
   microtasks (fold run_reaction jobs s) = microtasks s \<and>
   subscriptions (fold run_reaction jobs s) = subscriptions s \<and>
   console (fold run_reaction jobs s) = console s \<and>
   same_index s (fold run_reaction jobs s)"
proof (induction jobs arbitrary: s)
  case Nil
  then show ?case by simp
next
  case (Cons job jobs)
  show ?case
    using Cons.IH [of "run_reaction job s"] same_index_trans [OF same_index_run_reaction [of s job]]
    by simp
qed

lemma run_microtasks_fields [simp]:
  "length (heap (run_microtasks s)) = length (heap s)"
  "promises (run_microtasks s) = promises s"
  "microtasks (run_microtasks s) = []"
  "subscriptions (run_microtasks s) = subscriptions s"
  "console (run_microtasks s) = console s"
  "same_index s (run_microtasks s)"
  using fold_run_reaction_fields [of "microtasks s" "s\<lparr>microtasks := []\<rparr>"]
  by (simp_all add: run_microtasks_def same_index_def)

lemma stored_same_index: "same_index s s' \<Longrightarrow> stored s' = stored s"
  by (simp add: same_index_def stored_def)

text \<open>\<open>ingest\<close> by the branch taken.\<close>

lemma ingest_by_category:
  "ingest c s =
     (let s1 = snd (CommentContext c s); e = entity_of c; this = length (heap s)
      in case classify e of
           Dropped \<Rightarrow> Inr s1
         | Class \<Rightarrow>
             if \<not> js_in (name e) (classes s)
             then publish (''resolve:'' @ className e) this (s1\<lparr>classes := (classes s)(name e \<mapsto> this)\<rparr>)
             else Inr s1
         | Module \<Rightarrow>
             if \<not> js_in (name e) (modules s)
             then publish (''resolve:'' @ className e) this (s1\<lparr>modules := (modules s)(name e \<mapsto> this)\<rparr>)
             else Inr s1
         | Function \<Rightarrow>
             if \<not> js_in (name e) (functions' s)
             then Inr (s1\<lparr>functions' := (functions' s)(name e \<mapsto> this)\<rparr>)
             else Inr s1
         | Constant \<Rightarrow>
             if \<not> js_in (name e) (constants' s)
             then Inr (s1\<lparr>constants' := (constants' s)(name e \<mapsto> this)\<rparr>)
             else Inr s1
         | Misc \<Rightarrow>
             Inr ((if verbose s then warn (UnrecognizedCommentKind this) s1 else s1)
                    \<lparr>misc := misc s @ [this]\<rparr>))"
proof -
  have "same_index s (snd (CommentContext c s))" by simp
  then show ?thesis
    by (simp add: ingest_def Let_def classify_def same_index_def)
qed

lemma ingest_index:
  assumes "ingest c s = Inr s'"
  shows "classes s' =
           (if classify (entity_of c) = Class \<and> \<not> js_in (name (entity_of c)) (classes s)
            then (classes s)(name (entity_of c) \<mapsto> length (heap s)) else classes s)"
    and "modules s' =
           (if classify (entity_of c) = Module \<and> \<not> js_in (name (entity_of c)) (modules s)
            then (modules s)(name (entity_of c) \<mapsto> length (heap s)) else modules s)"
    and "functions' s' =
           (if classify (entity_of c) = Function \<and> \<not> js_in (name (entity_of c)) (functions' s)
            then (functions' s)(name (entity_of c) \<mapsto> length (heap s)) else functions' s)"
    and "constants' s' =
           (if classify (entity_of c) = Constant \<and> \<not> js_in (name (entity_of c)) (constants' s)
            then (constants' s)(name (entity_of c) \<mapsto> length (heap s)) else constants' s)"
    and "misc s' = (if classify (entity_of c) = Misc then misc s @ [length (heap s)] else misc s)"
    and "verbose s' = verbose s" and "comments s' = comments s"
proof -
  have si: "same_index s (snd (CommentContext c s))" by simp
  have pf: "same_index s0 s'" if "publish t e s0 = Inr s'" for t e s0
    using publish_frame(3) [OF that] .
  show "classes s' =
           (if classify (entity_of c) = Class \<and> \<not> js_in (name (entity_of c)) (classes s)
            then (classes s)(name (entity_of c) \<mapsto> length (heap s)) else classes s)"
    and "modules s' =
           (if classify (entity_of c) = Module \<and> \<not> js_in (name (entity_of c)) (modules s)
            then (modules s)(name (entity_of c) \<mapsto> length (heap s)) else modules s)"
    and "functions' s' =
           (if classify (entity_of c) = Function \<and> \<not> js_in (name (entity_of c)) (functions' s)
            then (functions' s)(name (entity_of c) \<mapsto> length (heap s)) else functions' s)"
    and "constants' s' =
           (if classify (entity_of c) = Constant \<and> \<not> js_in (name (entity_of c)) (constants' s)
            then (constants' s)(name (entity_of c) \<mapsto> length (heap s)) else constants' s)"
    and "misc s' = (if classify (entity_of c) = Misc then misc s @ [length (heap s)] else misc s)"
    and "verbose s' = verbose s" and "comments s' = comments s"
    using assms si
    by (auto simp: ingest_by_category Let_def same_index_def
        split: category.splits if_splits dest!: pf)
qed

section \<open>The loop over the comments\<close>

lemma forEach_append:
  "forEach (xs @ ys) s = (case forEach xs s of Inl e \<Rightarrow> Inl e | Inr s' \<Rightarrow> forEach ys s')"
  by (induction xs arbitrary: s) (simp_all split: sum.splits)

lemma forEach_heap:
  "forEach cs s = Inr s' \<Longrightarrow> heap s' = heap s @ map entity_of cs"
proof (induction cs arbitrary: s)
  case Nil
  then show ?case by simp
next
  case (Cons c cs)
  obtain s1 where s1: "ingest c s = Inr s1" using ingest_total by blast
  with Cons.prems have "forEach cs s1 = Inr s'" by simp
  from Cons.IH [OF this] ingest_heap [OF s1] show ?case by simp
qed

lemma isIgnored_tag_fields:
  "isIgnored (tag_fields t e) = (tag_type t = ''ignore'' \<or> isIgnored e)"
  by (simp add: tag_fields_def)

lemma isIgnored_entity_of:
  "isIgnored (entity_of c) = (\<exists>t\<in>set (c_tags c). tag_type t = ''ignore'')"
proof -
  have "isIgnored (fold tag_fields ts e) = (isIgnored e \<or> (\<exists>t\<in>set ts. tag_type t = ''ignore''))"
    for ts e
    by (induction ts arbitrary: e) (auto simp: isIgnored_tag_fields)
  then show ?thesis by (simp add: entity_of_def init_def)
qed

lemma ran_upd_subset: "ran (m(a \<mapsto> b)) \<subseteq> insert b (ran m)"
  by (auto simp: ran_def)

lemma ingest_stored:
  assumes "ingest c s = Inr s'"
  shows "stored s' \<subseteq> stored s \<union> (if isIgnored (entity_of c) then {} else {length (heap s)})"
proof -
  note ix = ingest_index [OF assms]
  have ig: "isIgnored (entity_of c) \<Longrightarrow> classify (entity_of c) = Dropped"
    by (simp add: classify_def)
  show ?thesis
    unfolding stored_def ix using ran_upd_subset ig
    by (auto split: if_splits) fastforce+
qed

lemma forEach_stored:
  "forEach cs s = Inr s' \<Longrightarrow>
   stored s' \<subseteq> stored s \<union> {e. length (heap s) \<le> e \<and> e < length (heap s') \<and> \<not> isIgnored (heap s' ! e)}"
proof (induction cs arbitrary: s)
  case Nil
  then show ?case by simp
next
  case (Cons c cs)
  obtain s1 where s1: "ingest c s = Inr s1" using ingest_total by blast
  with Cons.prems have r: "forEach cs s1 = Inr s'" by simp
  have h1: "heap s1 = heap s @ [entity_of c]" using ingest_heap [OF s1] .
  have h': "heap s' = heap s @ entity_of c # map entity_of cs"
    using forEach_heap [OF r] h1 by simp
  have "heap s' ! length (heap s) = entity_of c" using h' by simp
  with Cons.IH [OF r] ingest_stored [OF s1] h1 h' show ?case
    by (auto split: if_splits)
qed

text \<open>
  C4: for every comment sequence, the object built from a comment that carries an "ignore"
  tag (whatever other tags it carries) is, after \<open>processSource\<close> has ingested the
  sequence into a new index, a value of none of the maps classes, modules, functions and
  constants and no element of misc, also once the microtasks have run.
\<close>

theorem ignored_never_stored:
  assumes "i < length cs" and "\<exists>t\<in>set (c_tags (cs ! i)). tag_type t = ''ignore''"
  shows "\<exists>s. processSource (addSource cs (DocContext v)) = Inr s \<and>
             heap s ! i = entity_of (cs ! i) \<and> isIgnored (heap s ! i) \<and>
             i \<notin> ran (classes s) \<and> i \<notin> ran (modules s) \<and> i \<notin> ran (functions' s) \<and>
             i \<notin> ran (constants' s) \<and> i \<notin> set (misc s) \<and> i \<notin> stored (run_microtasks s)"
proof -
  let ?s0 = "addSource cs (DocContext v)"
  obtain s where s: "forEach cs ?s0 = Inr s" using forEach_total by blast
  have h: "heap s = map entity_of cs"
    using forEach_heap [OF s] by (simp add: addSource_def DocContext_def)
  have e: "heap s ! i = entity_of (cs ! i)" using h assms(1) by simp
  have ig: "isIgnored (heap s ! i)" using e assms(2) by (simp add: isIgnored_entity_of)
  have "stored ?s0 = {}" by (simp add: stored_def addSource_def DocContext_def)
  with forEach_stored [OF s] ig have n: "i \<notin> stored s" by auto
  have "stored (run_microtasks s) = stored s" by (rule stored_same_index) simp
  with n e ig s show ?thesis
    by (auto simp: processSource_def addSource_def DocContext_def stored_def)
qed

theorem ignored_never_stored_witness:
  "\<exists>s. processSource (addSource
            [a_comment [a_tag ''class'' [] [], a_tag ''name'' ''Foo'' [], a_tag ''ignore'' [] []] [],
             a_comment [a_tag ''class'' [] [], a_tag ''name'' ''Foo'' []] []]
            (DocContext False)) = Inr s \<and>
       heap s ! 0 = entity_of ([a_comment [a_tag ''class'' [] [], a_tag ''name'' ''Foo'' [], a_tag ''ignore'' [] []] [],
             a_comment [a_tag ''class'' [] [], a_tag ''name'' ''Foo'' []] []] ! 0) \<and>
       isIgnored (heap s ! 0) \<and>
       0 \<notin> ran (classes s) \<and> 0 \<notin> ran (modules s) \<and> 0 \<notin> ran (functions' s) \<and>
       0 \<notin> ran (constants' s) \<and> 0 \<notin> set (misc s) \<and> 0 \<notin> stored (run_microtasks s)"
  by (rule ignored_never_stored) (simp_all add: a_comment_def a_tag_def)

section \<open>First definition wins\<close>

lemma ingest_category_map:
  assumes "ingest c s = Inr s'" and "k \<in> {Class, Module, Function, Constant}"
  shows "category_map k s' =
           (if classify (entity_of c) = k \<and> \<not> js_in (name (entity_of c)) (category_map k s)
            then (category_map k s)(name (entity_of c) \<mapsto> length (heap s))
            else category_map k s)"
  using assms(2) ingest_index(1-4) [OF assms(1)]
  by (auto simp: category_map_def)

lemma js_in_Some: "m n = Some e \<Longrightarrow> js_in n m"
  by (simp add: js_in_def)

lemma forEach_keeps_claim:
  "forEach cs s = Inr s' \<Longrightarrow> k \<in> {Class, Module, Function, Constant} \<Longrightarrow>
   category_map k s n = Some e \<Longrightarrow> category_map k s' n = Some e"
proof (induction cs arbitrary: s)
  case Nil
  then show ?case by simp
next
  case (Cons c cs)
  obtain s1 where s1: "ingest c s = Inr s1" using ingest_total by blast
  with Cons.prems have r: "forEach cs s1 = Inr s'" by simp
  have "category_map k s1 n = Some e"
    using ingest_category_map [OF s1 Cons.prems(2)] Cons.prems(3) js_in_Some [of "category_map k s" n e]
    by auto
  from Cons.IH [OF r Cons.prems(2) this] show ?case .
qed

lemma forEach_unclaimed:
  "forEach cs s = Inr s' \<Longrightarrow> k \<in> {Class, Module, Function, Constant} \<Longrightarrow>
   category_map k s n = None \<Longrightarrow>
   \<forall>c\<in>set cs. \<not> (classify (entity_of c) = k \<and> name (entity_of c) = n) \<Longrightarrow>
   category_map k s' n = None"
proof (induction cs arbitrary: s)
  case Nil
  then show ?case by simp
next
  case (Cons c cs)
  obtain s1 where s1: "ingest c s = Inr s1" using ingest_total by blast
  with Cons.prems have r: "forEach cs s1 = Inr s'" by simp
  have "category_map k s1 n = None"
    using ingest_category_map [OF s1 Cons.prems(2)] Cons.prems(3,4) by auto
  from Cons.IH [OF r Cons.prems(2) this] Cons.prems(4) show ?case by simp
qed

text \<open>
  First definition wins, for a name that \<open>Object.prototype\<close> does not define: when comment
  \<open>i\<close> is the first of the sequence that falls into category \<open>k\<close> with name \<open>n\<close>,
  the map of \<open>k\<close> holds the object of comment \<open>i\<close> under \<open>n\<close> at the end, whatever
  follows, and the object has the description of comment \<open>i\<close>.
\<close>

lemma first_definition_wins:
  assumes "i < length cs" and "k \<in> {Class, Module, Function, Constant}"
    and "classify (entity_of (cs ! i)) = k" and "name (entity_of (cs ! i)) = n"
    and "\<forall>j<i. \<not> (classify (entity_of (cs ! j)) = k \<and> name (entity_of (cs ! j)) = n)"
    and "n \<notin> set Object_prototype_keys"
  shows "\<exists>s. processSource (addSource cs (DocContext v)) = Inr s \<and>
             category_map k s n = Some i \<and> heap s ! i = entity_of (cs ! i) \<and>
             description (heap s ! i) = c_description (cs ! i)"
proof -
  let ?s0 = "addSource cs (DocContext v)"
  obtain s where s: "forEach cs ?s0 = Inr s" using forEach_total by blast
  have cs: "cs = take i cs @ cs ! i # drop (Suc i) cs"
    using assms(1) by (simp add: id_take_nth_drop)
  obtain s1 where s1: "forEach (take i cs) ?s0 = Inr s1" using forEach_total by blast
  obtain s2 where s2: "ingest (cs ! i) s1 = Inr s2" using ingest_total by blast
  have s3: "forEach (drop (Suc i) cs) s2 = Inr s"
    using s s1 s2 forEach_append [of "take i cs" "cs ! i # drop (Suc i) cs" ?s0] cs by simp
  have e0: "category_map k ?s0 n = None"
    using assms(2) by (auto simp: category_map_def addSource_def DocContext_def)
  have "\<forall>c\<in>set (take i cs). \<not> (classify (entity_of c) = k \<and> name (entity_of c) = n)"
  proof
    fix c assume "c \<in> set (take i cs)"
    then obtain x where "x < i" "c = cs ! x"
      using assms(1) by (auto simp: in_set_conv_nth)
    then show "\<not> (classify (entity_of c) = k \<and> name (entity_of c) = n)"
      using assms(5) by simp
  qed
  from forEach_unclaimed [OF s1 assms(2) e0 this]
  have e1: "category_map k s1 n = None" .
  have h1: "length (heap s1) = i"
    using forEach_heap [OF s1] assms(1) by (simp add: addSource_def DocContext_def)
  have "\<not> js_in n (category_map k s1)" using e1 assms(6) by (simp add: js_in_def)
  then have "category_map k s2 n = Some i"
    using ingest_category_map [OF s2 assms(2)] assms(3,4) h1 by simp
  from forEach_keeps_claim [OF s3 assms(2) this]
  have m: "category_map k s n = Some i" .
  have h: "heap s ! i = entity_of (cs ! i)"
    using forEach_heap [OF s] assms(1) by (simp add: addSource_def DocContext_def)
  have "description (fold tag_fields ts e) = description e" for ts e
    by (induction ts arbitrary: e) (simp_all add: tag_fields_def)
  then have "description (entity_of c) = c_description c" for c
    by (simp add: entity_of_def init_def)
  with m h s show ?thesis by (simp add: processSource_def addSource_def DocContext_def)
qed

lemma js_in_persists:
  assumes "forEach cs s = Inr s'" and "k \<in> {Class, Module, Function, Constant}"
    and "js_in n (category_map k s)"
  shows "js_in n (category_map k s')"
proof (cases "category_map k s n")
  case None
  then have "n \<in> set Object_prototype_keys" using assms(3) by (simp add: js_in_def)
  then show ?thesis by (simp add: js_in_def split: option.split)
next
  case (Some e)
  from forEach_keeps_claim [OF assms(1,2) this] show ?thesis by (simp add: js_in_def)
qed

lemma js_in_after_ingest:
  assumes "ingest c s = Inr s'" and "k \<in> {Class, Module, Function, Constant}"
    and "classify (entity_of c) = k"
  shows "js_in (name (entity_of c)) (category_map k s')"
  using ingest_category_map [OF assms(1,2)] assms(3)
  by (cases "js_in (name (entity_of c)) (category_map k s)") (auto simp: js_in_def)

text \<open>A claimed name: the object is constructed, and nothing else happens.\<close>

lemma ingest_duplicate:
  assumes "classify (entity_of c) = k" and "k \<in> {Class, Module, Function, Constant}"
    and "js_in (name (entity_of c)) (category_map k s)"
  shows "ingest c s = Inr (snd (CommentContext c s))"
  using assms by (auto simp: ingest_by_category Let_def category_map_def)

text \<open>A later comment of the same category and name is held by no map and not by misc.\<close>

lemma duplicate_discarded:
  assumes "j < length cs" and "i < j"
    and "classify (entity_of (cs ! i)) = classify (entity_of (cs ! j))"
    and "name (entity_of (cs ! i)) = name (entity_of (cs ! j))"
    and "classify (entity_of (cs ! j)) \<in> {Class, Module, Function, Constant}"
  shows "\<exists>s. processSource (addSource cs (DocContext v)) = Inr s \<and> j \<notin> stored s"
proof -
  let ?s0 = "addSource cs (DocContext v)"
  let ?k = "classify (entity_of (cs ! j))" and ?n = "name (entity_of (cs ! j))"
  obtain s where s: "forEach cs ?s0 = Inr s" using forEach_total by blast
  have cs: "cs = take i cs @ cs ! i # (take (j - Suc i) (drop (Suc i) cs) @ cs ! j # drop (Suc j) cs)"
  proof -
    have "cs = take i cs @ cs ! i # drop (Suc i) cs"
      using assms(1,2) by (simp add: id_take_nth_drop)
    moreover have "drop (Suc i) cs = take (j - Suc i) (drop (Suc i) cs) @
        drop (Suc i) cs ! (j - Suc i) # drop (Suc (j - Suc i)) (drop (Suc i) cs)"
      using assms(1,2) by (intro id_take_nth_drop) simp
    moreover have "drop (Suc i) cs ! (j - Suc i) = cs ! j" using assms(1,2) by simp
    moreover have "drop (Suc (j - Suc i)) (drop (Suc i) cs) = drop (Suc j) cs"
      using assms(1,2) by simp
    ultimately show ?thesis by simp
  qed
  let ?mid = "take (j - Suc i) (drop (Suc i) cs)"
  obtain s1 where s1: "forEach (take i cs) ?s0 = Inr s1" using forEach_total by blast
  obtain s2 where s2: "ingest (cs ! i) s1 = Inr s2" using ingest_total by blast
  obtain s3 where s3: "forEach ?mid s2 = Inr s3" using forEach_total by blast
  obtain s4 where s4: "ingest (cs ! j) s3 = Inr s4" using ingest_total by blast
  have "forEach cs ?s0 = forEach (drop (Suc j) cs) s4"
    by (subst cs) (simp add: forEach_append s1 s2 s3 s4)
  with s have s5: "forEach (drop (Suc j) cs) s4 = Inr s" by simp
  have s03: "forEach (take i cs @ cs ! i # ?mid) ?s0 = Inr s3"
    by (simp add: forEach_append s1 s2 s3)
  have l3: "length (heap s3) = j"
    using forEach_heap [OF s03] assms(1,2) by (simp add: addSource_def DocContext_def)
  have "stored ?s0 = {}" by (simp add: stored_def addSource_def DocContext_def)
  with forEach_stored [OF s03] l3 have st3: "stored s3 \<subseteq> {e. e < j}" by auto
  have "js_in ?n (category_map ?k s2)"
    using js_in_after_ingest [OF s2 assms(5)] assms(3,4) by simp
  from js_in_persists [OF s3 assms(5) this]
  have "ingest (cs ! j) s3 = Inr (snd (CommentContext (cs ! j) s3))"
    using assms(5) by (intro ingest_duplicate [of _ ?k]) simp_all
  with s4 have "s4 = snd (CommentContext (cs ! j) s3)" by simp
  then have st4: "stored s4 = stored s3" and l4: "length (heap s4) = Suc j"
    using l3 by (simp_all add: stored_same_index)
  from forEach_stored [OF s5] st4 st3 l4 have "j \<notin> stored s" by auto
  with s show ?thesis by (simp add: processSource_def addSource_def DocContext_def)
qed

text \<open>
  C3: the claim holds for every name that a plain object does not inherit (lemmas
  \<open>first_definition_wins\<close> and \<open>duplicate_discarded\<close>), and no comment raises an
  error. For a name that \<open>Object.prototype\<close> defines the test \<open>name in map\<close> of lines
  217, 224, 231 and 236 is true on the empty map already: of two function comments named
  \<open>toString\<close> the map retains neither, and reading \<open>functions["toString"]\<close> yields the
  inherited function, not the first object.
\<close>

theorem inherited_name_not_retained:
  "\<exists>s. processSource (addSource
          [a_comment [a_tag ''function'' [] [], a_tag ''name'' ''toString'' []] ''first'',
           a_comment [a_tag ''function'' [] [], a_tag ''name'' ''toString'' []] ''second'']
          (DocContext False)) = Inr s \<and>
       classify (heap s ! 0) = Function \<and> name (heap s ! 0) = ''toString'' \<and>
       description (heap s ! 0) = ''first'' \<and>
       functions' s ''toString'' = None \<and>
       js_get (functions' s) ''toString'' = Inherited ''toString''"
proof -
  have "case processSource (addSource
          [a_comment [a_tag ''function'' [] [], a_tag ''name'' ''toString'' []] ''first'',
           a_comment [a_tag ''function'' [] [], a_tag ''name'' ''toString'' []] ''second'']
          (DocContext False)) of
        Inl e \<Rightarrow> False
      | Inr s \<Rightarrow>
          classify (heap s ! 0) = Function \<and> name (heap s ! 0) = ''toString'' \<and>
          description (heap s ! 0) = ''first'' \<and>
          functions' s ''toString'' = None \<and>
          js_get (functions' s) ''toString'' = Inherited ''toString''"
    by code_simp
  then show ?thesis by (simp split: sum.splits)
qed

text \<open>
  C1: class \<open>Foo\<close> is ingested before the function \<open>f\<close> that carries
  \<open>memberOf Foo\<close>. Once the microtasks have run, \<open>f\<close> occurs exactly once in the
  children of \<open>Foo\<close>, but the \<open>_parent\<close> of \<open>f\<close> is still \<open>undefined\<close>: the
  constructor defines the property without \<open>writable\<close>, so the assignment
  \<open>child._parent = this\<close> in \<open>addChild\<close> stores nothing.
\<close>

theorem parent_not_assigned:
  "\<exists>s. processSource (addSource
          [a_comment [a_tag ''class'' [] [], a_tag ''name'' ''Foo'' []] [],
           a_comment [a_tag ''function'' [] [], a_tag ''name'' ''f'' [], a_tag ''memberOf'' [] ''Foo''] []]
          (DocContext False)) = Inr s \<and>
       classes s ''Foo'' = Some 0 \<and> microtasks s = [(1, Ref 0)] \<and>
       children (heap (run_microtasks s) ! 0) = [1] \<and>
       p_value (parent (heap (run_microtasks s) ! 1)) = Undefined"
proof -
  have "case processSource (addSource
          [a_comment [a_tag ''class'' [] [], a_tag ''name'' ''Foo'' []] [],
           a_comment [a_tag ''function'' [] [], a_tag ''name'' ''f'' [], a_tag ''memberOf'' [] ''Foo''] []]
          (DocContext False)) of
        Inl e \<Rightarrow> False
      | Inr s \<Rightarrow>
          classes s ''Foo'' = Some 0 \<and> microtasks s = [(1, Ref 0)] \<and>
          children (heap (run_microtasks s) ! 0) = [1] \<and>
          p_value (parent (heap (run_microtasks s) ! 1)) = Undefined"
    by code_simp
  then show ?thesis by (simp split: sum.splits)
qed

section \<open>States that grow\<close>

lemma grows_refl [simp]: "grows s s"
  by (simp add: grows_def)

lemma grows_trans:
  assumes "grows s s'" "grows s' s''"
  shows "grows s s''"
proof -
  from assms(1) obtain n1 m1 where
    l1: "length (promises s) \<le> length (promises s')" and
    p1: "\<forall>pid<length (promises s). promises s' ! pid = promises s ! pid" and
    s1: "subscriptions s' = subscriptions s @ n1" and
    b1: "\<forall>ts\<in>set n1. length (promises s) \<le> sub_resolve (snd ts) \<and>
                      sub_resolve (snd ts) < length (promises s')" and
    m1: "microtasks s' = microtasks s @ m1"
    unfolding grows_def by blast
  from assms(2) obtain n2 m2 where
    l2: "length (promises s') \<le> length (promises s'')" and
    p2: "\<forall>pid<length (promises s'). promises s'' ! pid = promises s' ! pid" and
    s2: "subscriptions s'' = subscriptions s' @ n2" and
    b2: "\<forall>ts\<in>set n2. length (promises s') \<le> sub_resolve (snd ts) \<and>
                      sub_resolve (snd ts) < length (promises s'')" and
    m2: "microtasks s'' = microtasks s' @ m2"
    unfolding grows_def by blast
  have "subscriptions s'' = subscriptions s @ (n1 @ n2)" using s1 s2 by simp
  moreover have "\<forall>ts\<in>set (n1 @ n2). length (promises s) \<le> sub_resolve (snd ts) \<and>
                      sub_resolve (snd ts) < length (promises s'')"
    using b1 b2 l1 l2 by fastforce
  moreover have "microtasks s'' = microtasks s @ (m1 @ m2)" using m1 m2 by simp
  moreover have "\<forall>pid<length (promises s). promises s'' ! pid = promises s ! pid"
    using p1 p2 l1 by simp
  ultimately show ?thesis unfolding grows_def using l1 l2 by (meson le_trans)
qed

lemma grows_same:
  "promises s' = promises s \<Longrightarrow> subscriptions s' = subscriptions s \<Longrightarrow>
   microtasks s' = microtasks s \<Longrightarrow> grows s s'"
  by (simp add: grows_def)

lemma resolve_other: "pid' \<noteq> pid \<Longrightarrow> promises (resolve pid v s) ! pid' = promises s ! pid'"
  by (simp add: resolve_def split: promise.split)

lemma reject_other: "pid' \<noteq> pid \<Longrightarrow> promises (reject pid e s) ! pid' = promises s ! pid'"
  by (simp add: reject_def split: promise.split)

lemma promise_then_other:
  "pid' \<noteq> pid \<Longrightarrow> promises (promise_then pid c s) ! pid' = promises s ! pid'"
  by (simp add: promise_then_def split: promise.split)

lemma resolve_microtasks: "\<exists>new. microtasks (resolve pid v s) = microtasks s @ new"
  by (simp add: resolve_def split: promise.split)

lemma promise_then_microtasks: "\<exists>new. microtasks (promise_then pid c s) = microtasks s @ new"
  by (simp add: promise_then_def split: promise.split)

lemma grows_resolve: "length (promises s) \<le> pid \<Longrightarrow> grows s s1 \<Longrightarrow> grows s (resolve pid v s1)"
  unfolding grows_def using resolve_microtasks [of pid v s1]
  by (auto simp: resolve_other)

lemma grows_reject: "length (promises s) \<le> pid \<Longrightarrow> grows s s1 \<Longrightarrow> grows s (reject pid e s1)"
  unfolding grows_def by (auto simp: reject_other)

lemma grows_promise_then:
  "length (promises s) \<le> pid \<Longrightarrow> grows s s1 \<Longrightarrow> grows s (promise_then pid c s1)"
  unfolding grows_def using promise_then_microtasks [of pid c s1]
  by (auto simp: promise_then_other)

lemma grows_new_promise: "grows s (s\<lparr>promises := promises s @ [p]\<rparr>)"
  by (simp add: grows_def nth_append)

lemma grows_console: "grows s s1 \<Longrightarrow> grows s (s1\<lparr>console := l\<rparr>)"
  by (simp add: grows_def)

lemma grows_walkParts:
  assumes "walkParts nm parts c pid s1 = Inr s2" "length (promises s) \<le> pid" "grows s s1"
  shows "grows s s2"
  using assms
  by (auto simp: walkParts_def grows_resolve grows_console split: walked.splits)

lemma grows_subscribeOnce:
  "length (promises s) \<le> sub_resolve sb \<Longrightarrow> sub_resolve sb < length (promises s1) \<Longrightarrow>
   grows s s1 \<Longrightarrow> grows s (subscribeOnce t sb s1)"
  unfolding grows_def by auto

lemma grows_getClass: "grows s (snd (getClass n s))"
proof -
  let ?s1 = "s\<lparr>promises := promises s @ [Pending []]\<rparr>"
  have g: "grows s ?s1" by (rule grows_new_promise)
  show ?thesis
    using g grows_walkParts [of _ _ _ "length (promises s)" ?s1 _ s]
      grows_reject [of s "length (promises s)" ?s1]
      grows_subscribeOnce [of s _ ?s1]
    by (auto simp: getClass_def Let_def split: sum.splits)
qed

lemma grows_update [simp]: "grows s (update this f s)"
  by (rule grows_same) simp_all

lemma grows_warn [simp]: "grows s (warn l s)"
  by (rule grows_same) simp_all

lemma grows_memberOf:
  "grows s (promise_then (fst (getClass n (update this f s))) this (snd (getClass n (update this f s))))"
proof -
  let ?u = "update this f s"
  have "grows s (snd (getClass n ?u))"
    by (rule grows_trans [OF grows_update grows_getClass])
  then show ?thesis by (rule grows_promise_then [rotated]) simp
qed

lemma grows_processTag [simp]: "grows s (processTag this t s)"
  using grows_memberOf by (simp add: processTag_def Let_def del: getClass_fst)

lemma grows_fold_processTag [simp]: "grows s (fold (processTag this) ts s)"
proof (induction ts arbitrary: s)
  case Nil
  then show ?case by simp
next
  case (Cons t ts)
  show ?case
    using grows_trans [OF grows_processTag [of s this t] Cons.IH [of "processTag this t s"]]
    by simp
qed

lemma grows_CommentContext [simp]: "grows s (snd (CommentContext c s))"
proof -
  have "grows s (s\<lparr>heap := heap s @ [init c]\<rparr>)" by (rule grows_same) simp_all
  then show ?thesis
    unfolding CommentContext_def Let_def processTags_def
    by (simp add: grows_trans [OF _ grows_fold_processTag])
qed

section \<open>Promises nobody can settle\<close>

lemma walkParts_other:
  "walkParts nm parts c pid s = Inr s' \<Longrightarrow> pid' \<noteq> pid \<Longrightarrow> promises s' ! pid' = promises s ! pid'"
  by (auto simp: walkParts_def resolve_other split: walked.splits)


lemma deliver_other:
  "deliver sbs c s = Inr s' \<Longrightarrow> \<forall>sb\<in>set sbs. sub_resolve sb \<noteq> pid \<Longrightarrow>
   promises s' ! pid = promises s ! pid"
proof (induction sbs arbitrary: s)
  case Nil
  then show ?case by simp
next
  case (Cons sb sbs)
  obtain s1 where s1: "walkParts (sub_name sb) (sub_parts sb) (Ref c) (sub_resolve sb) s = Inr s1"
    using walkParts_Ref by blast
  with Cons.prems have "deliver sbs c s1 = Inr s'" by simp
  from Cons.IH [OF this] Cons.prems(2) walkParts_other [OF s1, of pid] show ?case by simp
qed


lemma publish_other:
  assumes "publish t c s = Inr s'"
    and "\<forall>ts\<in>set (subscriptions s). sub_resolve (snd ts) = pid \<longrightarrow> fst ts \<noteq> t"
  shows "promises s' ! pid = promises s ! pid"
proof -
  have "\<forall>sb\<in>set (map snd (filter (\<lambda>ts. fst ts = t) (subscriptions s))). sub_resolve sb \<noteq> pid"
    using assms(2) by auto
  from deliver_other [OF assms(1) [unfolded publish_def] this] show ?thesis by simp
qed


lemma abandoned_cong:
  "promises s' = promises s \<Longrightarrow> subscriptions s' = subscriptions s \<Longrightarrow>
   abandoned pid s' = abandoned pid s"
  by (simp add: abandoned_def)

lemma abandoned_grows:
  assumes "abandoned pid s" "grows s s'"
  shows "abandoned pid s' \<and> promises s' ! pid = promises s ! pid"
  using assms unfolding abandoned_def grows_def by fastforce

lemma abandoned_publish:
  assumes "abandoned pid s" "publish t c s = Inr s'"
  shows "abandoned pid s' \<and> promises s' ! pid = promises s ! pid"
proof -
  have "promises s' ! pid = promises s ! pid"
    using assms by (intro publish_other [OF assms(2)]) (auto simp: abandoned_def)
  then show ?thesis
    using assms(1) publish_frame(4,5) [OF assms(2)] by (auto simp: abandoned_def)
qed

lemma abandoned_ingest:
  assumes "abandoned pid s" "ingest c s = Inr s'"
  shows "abandoned pid s' \<and> promises s' ! pid = promises s ! pid"
proof -
  let ?s1 = "snd (CommentContext c s)"
  have a1: "abandoned pid ?s1 \<and> promises ?s1 ! pid = promises s ! pid"
    using abandoned_grows [OF assms(1) grows_CommentContext] .
  have st: "abandoned pid (?s1\<lparr>classes := m\<rparr>)" "abandoned pid (?s1\<lparr>modules := m\<rparr>)"
    "promises (?s1\<lparr>classes := m\<rparr>) = promises ?s1" "promises (?s1\<lparr>modules := m\<rparr>) = promises ?s1" for m
    using a1 by (simp_all add: abandoned_def)
  have pb: "abandoned pid s' \<and> promises s' ! pid = promises s ! pid"
    if "publish t e s0 = Inr s'" "abandoned pid s0" "promises s0 = promises ?s1" for t e s0
    using abandoned_publish [OF that(2,1)] that(3) a1 by simp
  show ?thesis
    using assms(2) a1 pb st
    by (auto simp: ingest_by_category Let_def abandoned_def warn_def
        split: category.splits if_splits)
qed

lemma abandoned_later:
  "later s s' \<Longrightarrow> abandoned pid s \<Longrightarrow> abandoned pid s' \<and> promises s' ! pid = promises s ! pid"
proof (induction rule: later.induct)
  case (now s)
  then show ?case by simp
next
  case (tagged s s' this t)
  then show ?case using abandoned_grows [OF _ grows_processTag, of pid s' this t] by simp
next
  case (filed_class s s' n e)
  then show ?case by (simp add: abandoned_def)
next
  case (filed_module s s' n e)
  then show ?case by (simp add: abandoned_def)
next
  case (filed_function s s' n e)
  then show ?case by (simp add: abandoned_def)
next
  case (filed_constant s s' n e)
  then show ?case by (simp add: abandoned_def)
next
  case (filed_misc s s' e)
  then show ?case by (simp add: abandoned_def)
next
  case (warned s s' l)
  then show ?case by (simp add: abandoned_def)
next
  case (published s s' topic e s'')
  then show ?case using abandoned_publish [of pid s' topic e s''] by simp
next
  case (ingested s s' c s'')
  then show ?case using abandoned_ingest [of pid s' c s''] by simp
next
  case (constructed s s' c)
  then show ?case using abandoned_grows [OF _ grows_CommentContext, of pid s' c] by simp
next
  case (looked_up s s' n)
  then show ?case using abandoned_grows [OF _ grows_getClass, of pid s' n] by simp
next
  case (drained s s')
  then show ?case using abandoned_cong [of "run_microtasks s'" s' pid] by simp
qed

lemma pick_cong:
  assumes "\<forall>e. name (h' ! e) = name (h ! e)"
  shows "pick h' x = pick h x"
proof -
  have "named h' v x = named h v x" for v
    using assms by (cases v) simp_all
  then show ?thesis using assms by (intro ext) (simp add: pick_def)
qed

lemma walk_cong:
  assumes "\<forall>e. name (h' ! e) = name (h ! e)" "\<forall>e. children (h' ! e) = children (h ! e)"
  shows "walk h' tmp c parts = walk h tmp c parts"
proof (induction parts arbitrary: tmp c)
  case Nil
  then show ?case by simp
next
  case (Cons part parts)
  have "getFirstChild h' e part = getFirstChild h e part" for e
    using assms by (simp add: getFirstChild_def pick_cong [OF assms(1)])
  then show ?case using Cons.IH by (cases c) (simp_all add: Let_def)
qed

lemma walk_update_parentName:
  "walk ((heap s)[this := (heap s ! this)\<lparr>parentName := p\<rparr>]) tmp c parts = walk (heap s) tmp c parts"
proof (rule walk_cong)
  show "\<forall>e. name ((heap s)[this := (heap s ! this)\<lparr>parentName := p\<rparr>] ! e) = name (heap s ! e)"
    by (cases "this < length (heap s)") (auto simp: nth_list_update list_update_beyond)
  show "\<forall>e. children ((heap s)[this := (heap s ! this)\<lparr>parentName := p\<rparr>] ! e) = children (heap s ! e)"
    by (cases "this < length (heap s)") (auto simp: nth_list_update list_update_beyond)
qed

lemma processTag_memberOf:
  "tag_type t = ''memberOf'' \<Longrightarrow>
   processTag this t s =
     promise_then (length (promises s)) this
       (snd (getClass (tag_parent t) (update this (\<lambda>e. e\<lparr>parentName := tag_parent t\<rparr>) s)))"
  by (simp add: processTag_def Let_def)

lemma processTag_missing:
  assumes "tag_type t = ''memberOf''"
    and "split_dot (tag_parent t) = first # rest"
    and "js_or (js_get (classes s) first) (js_get (modules s) first) = Ref a"
    and "walk (heap s) [first] (Ref a) rest = Missing tmp"
  shows "processTag this t s =
           (update this (\<lambda>e. e\<lparr>parentName := tag_parent t\<rparr>) s)
             \<lparr>promises := promises s @ [Pending [this]],
              console := console s @ [WaitingFor (join_dot tmp)]\<rparr>"
  using assms
  by (simp add: processTag_memberOf getClass_def Let_def walkParts_def walk_update_parentName
      promise_then_def update_def)

lemma parent_assign_parent:
  assumes "\<not> p_writable (parent (heap s ! e))"
  shows "parent (heap (assign_parent child v s) ! e) = parent (heap s ! e)"
proof (cases "child = e")
  case True
  then show ?thesis using assms by (simp add: assign_parent_def)
next
  case False
  then show ?thesis by (simp add: assign_parent_def)
qed

lemma parent_addChild:
  assumes "e < length (heap s)" "\<not> p_writable (parent (heap s ! e))"
  shows "parent (heap (addChild this child s) ! e) = parent (heap s ! e)"
proof -
  let ?s1 = "s\<lparr>heap := (heap s)[this := (heap s ! this)\<lparr>children := children (heap s ! this) @ [child]\<rparr>]\<rparr>"
  have p1: "parent (heap ?s1 ! e) = parent (heap s ! e)"
    using assms(1) by (cases "this = e") simp_all
  then have "\<not> p_writable (parent (heap ?s1 ! e))" using assms(2) by simp
  from parent_assign_parent [OF this] p1 show ?thesis by (simp add: addChild_def)
qed

lemma parent_run_reaction:
  assumes "e < length (heap s)" "\<not> p_writable (parent (heap s ! e))"
  shows "parent (heap (run_reaction job s) ! e) = parent (heap s ! e)"
  using assms by (simp add: run_reaction_def parent_addChild split: jsval.split)

lemma parent_fold_run_reaction:
  "e < length (heap s) \<Longrightarrow> \<not> p_writable (parent (heap s ! e)) \<Longrightarrow>
   parent (heap (fold run_reaction jobs s) ! e) = parent (heap s ! e)"
proof (induction jobs arbitrary: s)
  case Nil
  then show ?case by simp
next
  case (Cons job jobs)
  have "parent (heap (run_reaction job s) ! e) = parent (heap s ! e)"
    using Cons.prems by (rule parent_run_reaction)
  then show ?case using Cons.IH [of "run_reaction job s"] Cons.prems by simp
qed

lemma parent_run_microtasks:
  "e < length (heap s) \<Longrightarrow> \<not> p_writable (parent (heap s ! e)) \<Longrightarrow>
   parent (heap (run_microtasks s) ! e) = parent (heap s ! e)"
  using parent_fold_run_reaction [of e "s\<lparr>microtasks := []\<rparr>" "microtasks s"]
  by (simp add: run_microtasks_def)

lemma parent_processTag:
  "e < length (heap s) \<Longrightarrow>
   e < length (heap (processTag this t s)) \<and>
   parent (heap (processTag this t s) ! e) = parent (heap s ! e)"
proof -
  have "parent (tag_fields t x) = parent x" for x
    by (simp add: tag_fields_def)
  then show "e < length (heap s) \<Longrightarrow>
   e < length (heap (processTag this t s)) \<and>
   parent (heap (processTag this t s) ! e) = parent (heap s ! e)"
    by (cases "this = e") (simp_all add: heap_processTag)
qed

lemma parent_later:
  "later s s' \<Longrightarrow> e < length (heap s) \<Longrightarrow> \<not> p_writable (parent (heap s ! e)) \<Longrightarrow>
   e < length (heap s') \<and> parent (heap s' ! e) = parent (heap s ! e)"
proof (induction rule: later.induct)
  case (now s)
  then show ?case by simp
next
  case (tagged s s' this t)
  then show ?case using parent_processTag [of e s' this t] by simp
next
  case (filed_class s s' n e')
  then show ?case by simp
next
  case (filed_module s s' n e')
  then show ?case by simp
next
  case (filed_function s s' n e')
  then show ?case by simp
next
  case (filed_constant s s' n e')
  then show ?case by simp
next
  case (filed_misc s s' e')
  then show ?case by simp
next
  case (warned s s' l)
  then show ?case by simp
next
  case (published s s' topic e' s'')
  then show ?case using publish_frame(1) [of topic e' s' s''] by simp
next
  case (ingested s s' c s'')
  then show ?case using ingest_heap [of c s' s''] by (simp add: nth_append)
next
  case (constructed s s' c)
  then show ?case by (simp add: nth_append)
next
  case (looked_up s s' n)
  then show ?case by simp
next
  case (drained s s')
  then show ?case using parent_run_microtasks [of e s'] by simp
qed

section \<open>Running the microtasks\<close>

lemma children_assign_parent:
  "children (heap (assign_parent child v s) ! e) = children (heap s ! e)"
proof (cases "child = e")
  case True
  then show ?thesis
    by (cases "e < length (heap s)") (simp_all add: assign_parent_def list_update_beyond)
next
  case False
  then show ?thesis by (simp add: assign_parent_def)
qed

lemma children_addChild:
  "children (heap (addChild this child s) ! e) =
     (if e = this \<and> this < length (heap s) then children (heap s ! e) @ [child]
      else children (heap s ! e))"
  unfolding addChild_def children_assign_parent
  by (cases "e = this"; cases "this < length (heap s)") (simp_all add: list_update_beyond)

lemma children_fold_run_reaction:
  "e < length (heap s) \<Longrightarrow>
   children (heap (fold run_reaction jobs s) ! e) =
     children (heap s ! e) @ map fst (filter (\<lambda>job. snd job = Ref e) jobs)"
proof (induction jobs arbitrary: s)
  case Nil
  then show ?case by simp
next
  case (Cons job jobs)
  have "children (heap (run_reaction job s) ! e) =
          children (heap s ! e) @ (if snd job = Ref e then [fst job] else [])"
    using Cons.prems by (cases "snd job") (auto simp: run_reaction_def children_addChild)
  then show ?case using Cons.IH [of "run_reaction job s"] Cons.prems by simp
qed

lemma children_run_microtasks:
  "e < length (heap s) \<Longrightarrow>
   children (heap (run_microtasks s) ! e) =
     children (heap s ! e) @ map fst (filter (\<lambda>job. snd job = Ref e) (microtasks s))"
  using children_fold_run_reaction [of e "s\<lparr>microtasks := []\<rparr>" "microtasks s"]
  by (simp add: run_microtasks_def)

lemma run_microtasks_attaches:
  assumes "(child, Ref cls) \<in> set (microtasks s)" "cls < length (heap s)"
  shows "child \<in> set (children (heap (run_microtasks s) ! cls))"
proof -
  have "(child, Ref cls) \<in> set (filter (\<lambda>job. snd job = Ref cls) (microtasks s))"
    using assms(1) by simp
  then have "child \<in> fst ` set (filter (\<lambda>job. snd job = Ref cls) (microtasks s))"
    by force
  then show ?thesis using assms(2) by (simp add: children_run_microtasks)
qed

section \<open>A reference to a known parent\<close>

lemma microtasks_grows: "grows s s' \<Longrightarrow> set (microtasks s) \<subseteq> set (microtasks s')"
  unfolding grows_def by auto


lemma processTag_known:
  assumes "tag_type t = ''memberOf''" and "CHR ''.'' \<notin> set (tag_parent t)"
    and "js_or (js_get (classes s) (tag_parent t)) (js_get (modules s) (tag_parent t)) = Ref a"
  shows "microtasks (processTag this t s) = microtasks s @ [(this, Ref a)]"
  using assms
  by (simp add: processTag_memberOf getClass_def Let_def split_dot_nodot walkParts_def
      resolve_def promise_then_def)

lemma fold_processTag_index:
  "classes (fold (processTag this) ts s) = classes s"
  "modules (fold (processTag this) ts s) = modules s"
  using same_index_fold_processTag [of s this ts] by (simp_all add: same_index_def)

lemma CommentContext_known:
  assumes "c_tags c = before @ t # after"
    and "tag_type t = ''memberOf''" and "CHR ''.'' \<notin> set (tag_parent t)"
    and "js_or (js_get (classes s) (tag_parent t)) (js_get (modules s) (tag_parent t)) = Ref a"
  shows "(length (heap s), Ref a) \<in> set (microtasks (snd (CommentContext c s)))"
proof -
  let ?me = "length (heap s)"
  let ?s0 = "s\<lparr>heap := heap s @ [init c]\<rparr>"
  let ?sa = "fold (processTag ?me) before ?s0"
  let ?sb = "processTag ?me t ?sa"
  have "js_or (js_get (classes ?sa) (tag_parent t)) (js_get (modules ?sa) (tag_parent t)) = Ref a"
    using assms(4) by (simp add: fold_processTag_index)
  from processTag_known [OF assms(2,3) this]
  have "(?me, Ref a) \<in> set (microtasks ?sb)" by simp
  moreover have "set (microtasks ?sb) \<subseteq> set (microtasks (fold (processTag ?me) after ?sb))"
    by (rule microtasks_grows) simp
  moreover have "snd (CommentContext c s) = fold (processTag ?me) after ?sb"
    using assms(1) by (simp add: CommentContext_def Let_def processTags_def)
  ultimately show ?thesis by auto
qed

section \<open>A reference to a parent that is not known yet\<close>









lemma resolve_topic_inject [simp]: "(''resolve:'' @ x = ''resolve:'' @ y) = (x = y)"
  by simp



section \<open>Order of ingestion\<close>



lemma processSource_addSource:
  "processSource (addSource cs (DocContext v)) = forEach cs (addSource cs (DocContext v))"
  by (simp add: processSource_def addSource_def DocContext_def)

section \<open>Parent and child in a stream of comments\<close>











text \<open>
  A name that \<open>Object.prototype\<close> defines: the class \<open>toString\<close> is neither filed nor
  published (line 217 finds the name in the empty map), the lookup of line 256 reads the
  inherited function as the parent, and the reaction of lines 102 to 104 throws on it.
  In both orders no object has a child, and the rejection is unhandled.
\<close>

lemma inherited_parent_not_attached:
  "map_sum id
     (\<lambda>s. (classes s ''toString'', modules s ''toString'',
           map children (heap (run_microtasks s)), unhandled (run_microtasks s)))
     (processSource (addSource
        [a_comment [a_tag ''function'' [] [], a_tag ''name'' ''f'' [], a_tag ''memberOf'' [] ''toString''] [],
         a_comment [a_tag ''class'' [] [], a_tag ''name'' ''toString'' []] []]
        (DocContext False))) =
   Inr (None, None, [[], []], [TypeError])"
  "map_sum id
     (\<lambda>s. (classes s ''toString'', modules s ''toString'',
           map children (heap (run_microtasks s)), unhandled (run_microtasks s)))
     (processSource (addSource
        [a_comment [a_tag ''class'' [] [], a_tag ''name'' ''toString'' []] [],
         a_comment [a_tag ''function'' [] [], a_tag ''name'' ''f'' [], a_tag ''memberOf'' [] ''toString''] []]
        (DocContext False))) =
   Inr (None, None, [[], []], [TypeError])"
  by code_simp+




text \<open>
  C10: a comment whose object falls into a category in whose map its name is already
  claimed is ingested by constructing the object and nothing more: the state after
  \<open>ingest\<close> is the state after \<open>new CommentContext\<close>, with every effect of its tags
  and with the index unchanged. When one of its tags is a "memberOf" whose single-segment
  parent the index knows as \<open>a\<close>, the attach is in the microtask queue, and once the
  microtasks have run the object is a child of \<open>a\<close> although no map holds it and misc
  does not.
\<close>

theorem dropped_duplicate_still_attached:
  assumes "classify (entity_of c) = k" and "k \<in> {Class, Module, Function, Constant}"
    and "js_in (name (entity_of c)) (category_map k s)"
  shows "ingest c s = Inr (snd (CommentContext c s)) \<and>
         same_index s (snd (CommentContext c s)) \<and>
         (c_tags c = before @ t # after \<and> tag_type t = ''memberOf'' \<and>
          CHR ''.'' \<notin> set (tag_parent t) \<and>
          js_or (js_get (classes s) (tag_parent t)) (js_get (modules s) (tag_parent t)) = Ref a \<and>
          a < length (heap s) \<and> (\<forall>e\<in>stored s. e < length (heap s)) \<longrightarrow>
          (length (heap s), Ref a) \<in> set (microtasks (snd (CommentContext c s))) \<and>
          length (heap s) \<in> set (children (heap (run_microtasks (snd (CommentContext c s))) ! a)) \<and>
          length (heap s) \<notin> stored (run_microtasks (snd (CommentContext c s))))"
proof (intro conjI impI)
  show "ingest c s = Inr (snd (CommentContext c s))"
    using assms by (rule ingest_duplicate)
  show "same_index s (snd (CommentContext c s))" by simp
next
  assume h: "c_tags c = before @ t # after \<and> tag_type t = ''memberOf'' \<and>
          CHR ''.'' \<notin> set (tag_parent t) \<and>
          js_or (js_get (classes s) (tag_parent t)) (js_get (modules s) (tag_parent t)) = Ref a \<and>
          a < length (heap s) \<and> (\<forall>e\<in>stored s. e < length (heap s))"
  let ?s1 = "snd (CommentContext c s)"
  have h1: "c_tags c = before @ t # after" and h2: "tag_type t = ''memberOf''"
    and h3: "CHR ''.'' \<notin> set (tag_parent t)"
    and h4: "js_or (js_get (classes s) (tag_parent t)) (js_get (modules s) (tag_parent t)) = Ref a"
    using h by simp_all
  show m: "(length (heap s), Ref a) \<in> set (microtasks ?s1)"
    using h1 h2 h3 h4 by (rule CommentContext_known)
  have "a < length (heap ?s1)" using h by simp
  with m show "length (heap s) \<in> set (children (heap (run_microtasks ?s1) ! a))"
    by (rule run_microtasks_attaches)
  have "same_index s (run_microtasks ?s1)"
    by (rule same_index_trans [of s ?s1]) simp_all
  then have "stored (run_microtasks ?s1) = stored s" by (rule stored_same_index)
  then show "length (heap s) \<notin> stored (run_microtasks ?s1)" using h by auto
qed

theorem dropped_duplicate_still_attached_witness:
  "ingest (a_comment [a_tag ''function'' [] [], a_tag ''name'' ''f'' [], a_tag ''memberOf'' [] ''Foo''] [])
      ((DocContext False)\<lparr>heap := [an_entity ''Foo'' [], an_entity ''f'' []],
                           classes := [''Foo'' \<mapsto> 0], functions' := [''f'' \<mapsto> 1]\<rparr>) =
    Inr (snd (CommentContext (a_comment [a_tag ''function'' [] [], a_tag ''name'' ''f'' [], a_tag ''memberOf'' [] ''Foo''] [])
      ((DocContext False)\<lparr>heap := [an_entity ''Foo'' [], an_entity ''f'' []],
                           classes := [''Foo'' \<mapsto> 0], functions' := [''f'' \<mapsto> 1]\<rparr>))) \<and>
   2 \<in> set (children (heap (run_microtasks (snd (CommentContext
      (a_comment [a_tag ''function'' [] [], a_tag ''name'' ''f'' [], a_tag ''memberOf'' [] ''Foo''] [])
      ((DocContext False)\<lparr>heap := [an_entity ''Foo'' [], an_entity ''f'' []],
                           classes := [''Foo'' \<mapsto> 0], functions' := [''f'' \<mapsto> 1]\<rparr>)))) ! 0)) \<and>
   2 \<notin> stored (run_microtasks (snd (CommentContext
      (a_comment [a_tag ''function'' [] [], a_tag ''name'' ''f'' [], a_tag ''memberOf'' [] ''Foo''] [])
      ((DocContext False)\<lparr>heap := [an_entity ''Foo'' [], an_entity ''f'' []],
                           classes := [''Foo'' \<mapsto> 0], functions' := [''f'' \<mapsto> 1]\<rparr>))))"
proof -
  let ?c = "a_comment [a_tag ''function'' [] [], a_tag ''name'' ''f'' [], a_tag ''memberOf'' [] ''Foo''] []"
  let ?s = "(DocContext False)\<lparr>heap := [an_entity ''Foo'' [], an_entity ''f'' []],
                           classes := [''Foo'' \<mapsto> 0], functions' := [''f'' \<mapsto> 1]\<rparr>"
  have h: "classify (entity_of ?c) = Function" "Function \<in> {Class, Module, Function, Constant}"
    "js_in (name (entity_of ?c)) (category_map Function ?s)"
    by (simp_all add: a_comment_def a_tag_def entity_of_def tag_fields_def init_def classify_def
        js_in_def category_map_def DocContext_def)
  have g: "c_tags ?c = [a_tag ''function'' [] [], a_tag ''name'' ''f'' []] @ a_tag ''memberOf'' [] ''Foo'' # [] \<and>
      tag_type (a_tag ''memberOf'' [] ''Foo'') = ''memberOf'' \<and>
      CHR ''.'' \<notin> set (tag_parent (a_tag ''memberOf'' [] ''Foo'')) \<and>
      js_or (js_get (classes ?s) (tag_parent (a_tag ''memberOf'' [] ''Foo'')))
        (js_get (modules ?s) (tag_parent (a_tag ''memberOf'' [] ''Foo''))) = Ref 0 \<and>
      0 < length (heap ?s) \<and> (\<forall>e\<in>stored ?s. e < length (heap ?s))"
    by (simp add: a_comment_def a_tag_def js_or_def js_get_def DocContext_def stored_def)
  have l: "length (heap ?s) = 2" by simp
  from dropped_duplicate_still_attached [OF h, of "[a_tag ''function'' [] [], a_tag ''name'' ''f'' []]"
      "a_tag ''memberOf'' [] ''Foo''" "[]" 0] g
  show ?thesis unfolding l by blast
qed

section \<open>A walk that a publication starts\<close>

lemma walkParts_missing:
  "walk (heap s) [nm] c parts = Missing tmp \<Longrightarrow>
   walkParts nm parts c pid s = Inr (s\<lparr>console := console s @ [WaitingFor (join_dot tmp)]\<rparr>)"
  by (simp add: walkParts_def)

lemma deliver_missing:
  "deliver sbs e s = Inr s' \<Longrightarrow>
   \<forall>sb\<in>set sbs. sub_resolve sb = pid \<longrightarrow>
     (\<exists>tmp. walk (heap s) [sub_name sb] (Ref e) (sub_parts sb) = Missing tmp) \<Longrightarrow>
   promises s' ! pid = promises s ! pid"
proof (induction sbs arbitrary: s)
  case Nil
  then show ?case by simp
next
  case (Cons sb sbs)
  obtain s1 where s1: "walkParts (sub_name sb) (sub_parts sb) (Ref e) (sub_resolve sb) s = Inr s1"
    using walkParts_Ref by blast
  with Cons.prems(1) have d: "deliver sbs e s1 = Inr s'" by simp
  have h: "heap s1 = heap s" using walkParts_frame(1) [OF s1] .
  have p1: "promises s1 ! pid = promises s ! pid"
  proof (cases "sub_resolve sb = pid")
    case True
    then obtain tmp where "walk (heap s) [sub_name sb] (Ref e) (sub_parts sb) = Missing tmp"
      using Cons.prems(2) by auto
    from walkParts_missing [OF this, of "sub_resolve sb"] s1 show ?thesis by auto
  next
    case False
    then show ?thesis using walkParts_other [OF s1, of pid] by simp
  qed
  have "\<forall>sb\<in>set sbs. sub_resolve sb = pid \<longrightarrow>
     (\<exists>tmp. walk (heap s1) [sub_name sb] (Ref e) (sub_parts sb) = Missing tmp)"
    using Cons.prems(2) h by simp
  from Cons.IH [OF d this] p1 show ?case by simp
qed

text \<open>
  The deferred walk: the first segment becomes known by a publication, the subscriber of
  promise \<open>pid\<close> is called with the published object \<open>e\<close>, and its walk through the
  remaining segments misses a child. The subscription is used up and the promise is left
  as it was; from then on nothing can settle it.
\<close>

lemma missing_segment_after_publication:
  assumes "publish T e s = Inr s1"
    and "pid < length (promises s)"
    and "\<forall>ts\<in>set (subscriptions s). sub_resolve (snd ts) = pid \<longrightarrow>
           fst ts = T \<and> (\<exists>tmp. walk (heap s) [sub_name (snd ts)] (Ref e) (sub_parts (snd ts)) = Missing tmp)"
    and "later s1 s'"
  shows "promises s1 ! pid = promises s ! pid \<and>
         unhandled s1 = unhandled s \<and>
         promises s' ! pid = promises s ! pid \<and>
         (\<forall>ts\<in>set (subscriptions s'). sub_resolve (snd ts) \<noteq> pid)"
proof -
  let ?fired = "map snd (filter (\<lambda>ts. fst ts = T) (subscriptions s))"
  let ?s0 = "s\<lparr>subscriptions := filter (\<lambda>ts. fst ts \<noteq> T) (subscriptions s)\<rparr>"
  have d: "deliver ?fired e ?s0 = Inr s1" using assms(1) by (simp add: publish_def)
  have "\<forall>sb\<in>set ?fired. sub_resolve sb = pid \<longrightarrow>
     (\<exists>tmp. walk (heap ?s0) [sub_name sb] (Ref e) (sub_parts sb) = Missing tmp)"
    using assms(3) by auto
  from deliver_missing [OF d this] have p: "promises s1 ! pid = promises s ! pid" by simp
  have "abandoned pid s1"
    using assms(2,3) publish_frame(4,5) [OF assms(1)] by (auto simp: abandoned_def)
  from abandoned_later [OF assms(4) this] p publish_frame(2) [OF assms(1)]
  show ?thesis by (simp add: abandoned_def)
qed

section \<open>A reference with a missing segment\<close>

lemma later_fold_processTag:
  "later s0 s \<Longrightarrow> later s0 (fold (processTag this) ts s)"
proof (induction ts arbitrary: s)
  case Nil
  then show ?case by simp
next
  case (Cons t ts)
  have "later s0 (processTag this t s)" using Cons.prems by (rule later.tagged)
  from Cons.IH [OF this] show ?case by simp
qed

text \<open>From the constructed object to the end of the ingestion of its comment.\<close>

lemma later_ingest_constructed:
  assumes "later s0 (snd (CommentContext c s))" and "ingest c s = Inr s'"
  shows "later s0 s'"
proof -
  let ?me = "fst (CommentContext c s)"
  let ?s1 = "snd (CommentContext c s)"
  let ?e = "heap ?s1 ! ?me"
  note L = assms(1)
  have pub: "later s0 s'" if "later s0 x" "publish T ?me x = Inr s'" for x T
    using that by (rule later.published)
  have m: "later s0 (x\<lparr>misc := misc ?s1 @ [?me]\<rparr>)" if "later s0 x" "misc x = misc ?s1" for x
    using later.filed_misc [OF that(1), of ?me] that(2) by simp
  have w: "later s0 (warn l ?s1)" for l using L by (rule later.warned)
  show ?thesis
  proof (cases "isIgnored ?e")
    case True
    then show ?thesis using assms by (simp add: ingest_def Let_def)
  next
    case ig: False
    show ?thesis
    proof (cases "isClass ?e")
      case True
      then show ?thesis
        using assms(2) ig L pub [OF later.filed_class [OF L, of "name ?e" ?me]]
        by (auto simp: ingest_def Let_def split: if_splits)
    next
      case cl: False
      show ?thesis
      proof (cases "isModule ?e")
        case True
        then show ?thesis
          using assms(2) ig cl L pub [OF later.filed_module [OF L, of "name ?e" ?me]]
          by (auto simp: ingest_def Let_def split: if_splits)
      next
        case md: False
        show ?thesis
        proof (cases "isFunction ?e")
          case True
          then show ?thesis
            using assms(2) ig cl md L later.filed_function [OF L, of "name ?e" ?me]
            by (auto simp: ingest_def Let_def split: if_splits)
        next
          case fn: False
          show ?thesis
          proof (cases "isConstant ?e \<or> isEnum ?e")
            case True
            then show ?thesis
              using assms(2) ig cl md fn L later.filed_constant [OF L, of "name ?e" ?me]
              by (auto simp: ingest_def Let_def split: if_splits)
          next
            case False
            then show ?thesis
              using assms(2) ig cl md fn m [OF L] m [OF w]
              by (auto simp: ingest_def Let_def split: if_splits)
          qed
        qed
      qed
    qed
  qed
qed

lemma later_forEach:
  "later s0 s \<Longrightarrow> forEach cs s = Inr s' \<Longrightarrow> later s0 s'"
proof (induction cs arbitrary: s)
  case Nil
  then show ?case by simp
next
  case (Cons c cs)
  obtain s1 where s1: "ingest c s = Inr s1" using ingest_total by blast
  with Cons.prems(2) have r: "forEach cs s1 = Inr s'" by simp
  have "later s0 s1" using Cons.prems(1) s1 by (rule later.ingested)
  from Cons.IH [OF this r] show ?case .
qed

text \<open>
  A run of \<open>processSource\<close> from a tag on: the comment \<open>c\<close> carries the tag \<open>t\<close> after
  the tags \<open>before\<close>; \<open>c\<close> is ingested in \<open>s0\<close>, then the comments \<open>cs\<close>, then
  the microtasks run. All these states are \<open>later\<close> than the state after the tag.
\<close>

lemma rest_of_run_is_later:
  assumes "c_tags c = before @ t # after"
    and "ingest c s0 = Inr s1" and "forEach cs s1 = Inr s2"
  shows "later (processTag (length (heap s0)) t
                 (fold (processTag (length (heap s0))) before (s0\<lparr>heap := heap s0 @ [init c]\<rparr>))) s1 \<and>
         later (processTag (length (heap s0)) t
                 (fold (processTag (length (heap s0))) before (s0\<lparr>heap := heap s0 @ [init c]\<rparr>))) s2 \<and>
         later (processTag (length (heap s0)) t
                 (fold (processTag (length (heap s0))) before (s0\<lparr>heap := heap s0 @ [init c]\<rparr>)))
           (run_microtasks s2)"
proof -
  let ?me = "length (heap s0)"
  let ?x = "processTag ?me t (fold (processTag ?me) before (s0\<lparr>heap := heap s0 @ [init c]\<rparr>))"
  have "snd (CommentContext c s0) = fold (processTag ?me) after ?x"
    using assms(1) by (simp add: CommentContext_def Let_def processTags_def)
  then have "later ?x (snd (CommentContext c s0))"
    using later_fold_processTag [OF later.now, of ?x ?me after] by simp
  from later_ingest_constructed [OF this assms(2)] have l1: "later ?x s1" .
  from later_forEach [OF l1 assms(3)] have l2: "later ?x s2" .
  from l1 l2 later.drained [OF l2] show ?thesis by simp
qed

text \<open>
  C6: a "memberOf" tag whose reference has a first segment the index knows (\<open>a\<close>) and
  whose walk through the remaining segments misses a child (\<open>walk\<close> ends in \<open>Missing\<close>)
  is processed without an error: it only sets \<open>parentName\<close>, logs the segment waited for
  and leaves a new promise pending with the attach as its reaction; no subscription, no
  microtask and no rejection is added. In every state that is \<open>later\<close> than the one
  after the tag (the remaining tags of the comment, its filing and publication, the
  comments that follow, constructions, lookups, and the microtasks: by
  \<open>rest_of_run_is_later\<close> every state of the run of \<open>processSource\<close> from there
  on), the promise is still pending with its reaction not run, no subscriber can resolve
  it, and the \<open>_parent\<close> of the object is \<open>undefined\<close>. The state at the tag is one
  in which every subscription belongs to a promise that exists, and \<open>this\<close> is an
  object as the constructor makes it.
\<close>

theorem missing_segment_never_resolves:
  assumes "tag_type t = ''memberOf''"
    and "split_dot (tag_parent t) = first # rest"
    and "js_or (js_get (classes s) first) (js_get (modules s) first) = Ref a"
    and "walk (heap s) [first] (Ref a) rest = Missing tmp"
    and "this < length (heap s)"
    and "parent (heap s ! this) = \<lparr>p_value = Undefined, p_writable = False\<rparr>"
    and "\<forall>ts\<in>set (subscriptions s). sub_resolve (snd ts) < length (promises s)"
    and "later (processTag this t s) s'"
  shows "promises (processTag this t s) = promises s @ [Pending [this]] \<and>
         subscriptions (processTag this t s) = subscriptions s \<and>
         microtasks (processTag this t s) = microtasks s \<and>
         unhandled (processTag this t s) = unhandled s \<and>
         console (processTag this t s) = console s @ [WaitingFor (join_dot tmp)] \<and>
         promises s' ! length (promises s) = Pending [this] \<and>
         (\<forall>ts\<in>set (subscriptions s'). sub_resolve (snd ts) \<noteq> length (promises s)) \<and>
         p_value (parent (heap s' ! this)) = Undefined"
proof -
  let ?s1 = "processTag this t s"
  note eq = processTag_missing [OF assms(1-4), of this]
  have ab: "abandoned (length (promises s)) ?s1"
    using assms(7) by (auto simp: eq abandoned_def)
  from abandoned_later [OF assms(8) ab]
  have l: "abandoned (length (promises s)) s'"
    "promises s' ! length (promises s) = Pending [this]"
    by (simp_all add: eq)
  have h1: "this < length (heap ?s1)" "parent (heap ?s1 ! this) = \<lparr>p_value = Undefined, p_writable = False\<rparr>"
    using assms(5,6) by (simp_all add: eq)
  from parent_later [OF assms(8) h1(1)] h1(2)
  have "parent (heap s' ! this) = \<lparr>p_value = Undefined, p_writable = False\<rparr>" by simp
  with l show ?thesis by (simp add: eq abandoned_def)
qed

theorem missing_segment_never_resolves_witness:
  "\<exists>s. processSource (addSource
          [a_comment [a_tag ''class'' [] [], a_tag ''name'' ''Outer'' []] [],
           a_comment [a_tag ''function'' [] [], a_tag ''name'' ''deep'' [],
                      a_tag ''memberOf'' [] ''Outer.Inner.deep''] []]
          (DocContext False)) = Inr s \<and>
       promises s ! 0 = Pending [1] \<and>
       promises (run_microtasks s) ! 0 = Pending [1] \<and>
       p_value (parent (heap (run_microtasks s) ! 1)) = Undefined"
proof -
  let ?c1 = "a_comment [a_tag ''class'' [] [], a_tag ''name'' ''Outer'' []] []"
  let ?t = "a_tag ''memberOf'' [] ''Outer.Inner.deep''"
  let ?c2 = "a_comment [a_tag ''function'' [] [], a_tag ''name'' ''deep'' [], ?t] []"
  let ?s0 = "addSource [?c1, ?c2] (DocContext False)"
  obtain s1 where s1: "ingest ?c1 ?s0 = Inr s1" using ingest_total by blast
  obtain s2 where s2: "ingest ?c2 s1 = Inr s2" using ingest_total by blast
  have run: "processSource ?s0 = Inr s2"
    using s1 s2 by (simp add: processSource_addSource)
  \<comment> \<open>the state after the first comment\<close>
  have "map_sum id (\<lambda>s. (heap s, promises s, subscriptions s, classes s ''Outer''))
          (ingest ?c1 ?s0) =
        Inr ([entity_of ?c1], [], [], Some 0)"
    by code_simp
  then have f1: "heap s1 = [entity_of ?c1]" "promises s1 = []" "subscriptions s1 = []"
    "classes s1 ''Outer'' = Some 0"
    using s1 by simp_all
  \<comment> \<open>the state at the tag\<close>
  define x where "x = fold (processTag (length (heap s1)))
      [a_tag ''function'' [] [], a_tag ''name'' ''deep'' []] (s1\<lparr>heap := heap s1 @ [init ?c2]\<rparr>)"
  have tags: "c_tags ?c2 = [a_tag ''function'' [] [], a_tag ''name'' ''deep'' []] @ ?t # []"
    by (simp add: a_comment_def)
  have hx: "heap x = [entity_of ?c1, fold tag_fields [a_tag ''function'' [] [], a_tag ''name'' ''deep'' []] (init ?c2)]"
    unfolding x_def heap_fold_processTag by (simp add: f1)
  have px: "promises x = []" "subscriptions x = []"
    unfolding x_def by (simp_all add: processTag_def a_tag_def f1)
  have cx: "classes x ''Outer'' = Some 0"
    unfolding x_def fold_processTag_index(1) by (simp add: f1)
  have h1: "tag_type ?t = ''memberOf''" by (simp add: a_tag_def)
  have h2: "split_dot (tag_parent ?t) = ''Outer'' # [''Inner'', ''deep'']" by (simp add: a_tag_def)
  have h3: "js_or (js_get (classes x) ''Outer'') (js_get (modules x) ''Outer'') = Ref 0"
    by (simp add: js_or_def js_get_def cx)
  have h4: "walk (heap x) [''Outer''] (Ref 0) [''Inner'', ''deep''] = Missing [''Outer'', ''Inner'']"
    by (simp add: hx getFirstChild_def entity_of_def tag_fields_def init_def a_comment_def a_tag_def)
  have h5: "1 < length (heap x)" by (simp add: hx)
  have h6: "parent (heap x ! 1) = \<lparr>p_value = Undefined, p_writable = False\<rparr>"
    by (simp add: hx tag_fields_def init_def a_tag_def)
  have h7: "\<forall>ts\<in>set (subscriptions x). sub_resolve (snd ts) < length (promises x)"
    by (simp add: px)
  have r: "forEach [] s2 = Inr s2" by simp
  note L = rest_of_run_is_later [OF tags s2 r, folded x_def]
  have l1: "later (processTag 1 ?t x) s2" and l2: "later (processTag 1 ?t x) (run_microtasks s2)"
    using L by (simp_all add: f1)
  from missing_segment_never_resolves [OF h1 h2 h3 h4 h5 h6 h7 l1]
  have a: "promises s2 ! 0 = Pending [1]" by (simp add: px)
  from missing_segment_never_resolves [OF h1 h2 h3 h4 h5 h6 h7 l2]
  have b: "promises (run_microtasks s2) ! 0 = Pending [1]"
    "p_value (parent (heap (run_microtasks s2) ! 1)) = Undefined"
    by (simp_all add: px)
  from run a b show ?thesis by blast
qed

end
